theory Spec2Isabelle
  imports Main "HOL-Library.Word"
begin

unbundle bit_operations_syntax

section \<open>The transfer register (block\_driver.c, pack and unpack)\<close>

text \<open>
  \<^verbatim>\<open>BlockXferRegister\<close> is declared in a header that is not part of the sources; the
  casts to \<^verbatim>\<open>uint64_t\<close> in \<^verbatim>\<open>pack\<close> and the specification (a 64-bit packed value) fix it
  as an unsigned 64-bit integer. The four fields travel as \<^verbatim>\<open>uint32_t\<close>.
\<close>

type_synonym BlockXferRegister = "64 word"

text \<open>
  \<^verbatim>\<open>return ((uint64_t)ky1 << 56 | (uint64_t)fm1 << 40 | (uint64_t)cs1 << 8 | rt1);\<close>
\<close>

definition pack :: "32 word \<Rightarrow> 32 word \<Rightarrow> 32 word \<Rightarrow> 32 word \<Rightarrow> BlockXferRegister" where
  "pack ky1 fm1 cs1 rt1 =
     push_bit 56 (ucast ky1) OR push_bit 40 (ucast fm1) OR push_bit 8 (ucast cs1) OR ucast rt1"

text \<open>
  The four out-parameters of \<^verbatim>\<open>unpack\<close> are returned as a tuple, in the order
  \<^verbatim>\<open>(ky1, fm1, cs1, rt1)\<close>; each assignment truncates the 64-bit value to 32 bits.
\<close>

definition unpack :: "BlockXferRegister \<Rightarrow> 32 word \<times> 32 word \<times> 32 word \<times> 32 word" where
  "unpack reg =
     (ucast (drop_bit 56 reg),
      ucast (drop_bit 48 (push_bit 8 reg)),
      ucast (drop_bit 32 (push_bit 24 reg)),
      ucast (drop_bit 56 (push_bit 56 reg)))"


section \<open>The frame cache (block\_cache.c)\<close>

text \<open>
  A frame is the 4096-byte buffer \<^verbatim>\<open>char nbuf[4096]\<close> of a cache node and
  \<^verbatim>\<open>typedef char frame_t[BLOCK_FRAME_SIZE]\<close> of the driver. \<^verbatim>\<open>BLOCK_FRAME_SIZE\<close> is a macro
  of a header that is not part of the sources; the value 4096 is the frame size of the
  specification and the size the cache copies. \<^verbatim>\<open>memcpy(dst, src, 4096)\<close> between two
  frames copies the whole value.
\<close>

abbreviation (input) BLOCK_FRAME_SIZE :: int where
  "BLOCK_FRAME_SIZE \<equiv> 4096"

typedef frame_t = "{bs :: 8 word list. length bs = 4096}"
  by (rule exI [of _ "replicate 4096 0"]) simp

definition frame_bytes :: "frame_t \<Rightarrow> 8 word list" where
  "frame_bytes f = Rep_frame_t f"

definition zero_frame :: frame_t where
  "zero_frame = Abs_frame_t (replicate 4096 0)"

text \<open>
  \<^verbatim>\<open>memcpy(frame + off, src, n)\<close> with the \<open>n\<close> bytes \<open>src\<close>; the callers check that the
  range lies inside the frame.
\<close>

definition frame_store :: "frame_t \<Rightarrow> nat \<Rightarrow> 8 word list \<Rightarrow> frame_t" where
  "frame_store f off src =
     (if off + length src \<le> 4096
      then Abs_frame_t (take off (frame_bytes f) @ src @ drop (off + length src) (frame_bytes f))
      else f)"

lemma length_frame_bytes: "length (frame_bytes f) = 4096"
  using Rep_frame_t [of f] by (simp add: frame_bytes_def)

lemma frame_bytes_inverse [code abstype]: "Abs_frame_t (frame_bytes f) = f"
  by (simp add: frame_bytes_def Rep_frame_t_inverse)


lemma frame_bytes_store [code abstract]:
  "frame_bytes (frame_store f off src) =
     (if off + length src \<le> 4096
      then take off (frame_bytes f) @ src @ drop (off + length src) (frame_bytes f)
      else frame_bytes f)"
proof (cases "off + length src \<le> 4096")
  case True
  then have "length (take off (frame_bytes f) @ src @ drop (off + length src) (frame_bytes f)) = 4096"
    by (simp add: length_frame_bytes)
  then show ?thesis
    using True by (simp add: frame_store_def frame_bytes_def Abs_frame_t_inverse)
next
  case False
  then show ?thesis
    by (simp add: frame_store_def)
qed

text \<open>
  \<^verbatim>\<open>BlockIndex\<close> and \<^verbatim>\<open>BlockFrameIndex\<close> are typedefs of a header that is not part of the
  sources, so the cache is polymorphic in them (\<open>'b\<close> and \<open>'k\<close>); the code only compares
  frame indices for equality. The \<^verbatim>\<open>next\<close> pointers are the list structure: a pointer to a
  node is the position of the node in the chain that starts at \<^verbatim>\<open>cache->head\<close>, and \<open>[]\<close>
  is \<^verbatim>\<open>NULL\<close>.
\<close>

record ('b, 'k) CacheNode =
  nBlock :: 'b
  nFrm :: 'k
  nbuf :: frame_t

record ('b, 'k) Cache =
  currentSize :: "32 word"
  head :: "('b, 'k) CacheNode list"

text \<open>
  The two globals of the cache module: \<^verbatim>\<open>block_cache_max_items\<close> and the pointer
  \<^verbatim>\<open>cache\<close> (\<open>None\<close> is \<^verbatim>\<open>NULL\<close>). Every function returns \<open>None\<close> where the C code
  dereferences a null or uninitialised pointer (undefined behaviour); \<^verbatim>\<open>calloc\<close> is taken
  to succeed.
\<close>

record ('b, 'k) cache_globals =
  block_cache_max_items :: "32 word"
  cache :: "('b, 'k) Cache option"

definition createNewNode ::
  "'b \<Rightarrow> 'k \<Rightarrow> ('b, 'k) CacheNode list \<Rightarrow> frame_t \<Rightarrow> ('b, 'k) CacheNode list" where
  "createNewNode nBlock' nFrm' nxt nBuf = \<lparr>nBlock = nBlock', nFrm = nFrm', nbuf = nBuf\<rparr> # nxt"

definition set_block_cache_size ::
  "('b, 'k) cache_globals \<Rightarrow> 32 word \<Rightarrow> int \<times> ('b, 'k) cache_globals" where
  "set_block_cache_size g max_frames = (0, g\<lparr>block_cache_max_items := max_frames\<rparr>)"

definition init_block_cache :: "('b, 'k) cache_globals \<Rightarrow> int \<times> ('b, 'k) cache_globals" where
  "init_block_cache g = (0, g\<lparr>cache := Some \<lparr>currentSize = 0, head = []\<rparr>\<rparr>)"

text \<open>The loop of \<^verbatim>\<open>close_block_cache\<close>: free the head until the chain is empty.\<close>

fun free_nodes :: "('b, 'k) CacheNode list \<Rightarrow> ('b, 'k) CacheNode list" where
  "free_nodes [] = []"
| "free_nodes (oldHead # rest) = free_nodes rest"

definition close_block_cache ::
  "('b, 'k) cache_globals \<Rightarrow> (int \<times> ('b, 'k) cache_globals) option" where
  "close_block_cache g =
     (case cache g of
        None \<Rightarrow> None
      | Some c \<Rightarrow> (case free_nodes (head c) of [] \<Rightarrow> Some (0, g\<lparr>cache := None\<rparr>) | _ \<Rightarrow> None))"

text \<open>\<^verbatim>\<open>p->next = p->next->next\<close> for the node \<open>p\<close> at position \<open>i\<close>.\<close>

definition unlink_after :: "'a list \<Rightarrow> nat \<Rightarrow> 'a list" where
  "unlink_after xs i = take (Suc i) xs @ drop (Suc (Suc i)) xs"

text \<open>
  \<^verbatim>\<open>popVal = p->next; (update popVal); p->next = popVal->next; popVal->next = cache->head;
  cache->head = popVal;\<close> for the node \<open>p\<close> at position \<open>i\<close>: the new chain, or \<open>None\<close> when
  \<^verbatim>\<open>p->next\<close> is \<^verbatim>\<open>NULL\<close>.
\<close>

definition pop_after ::
  "('b, 'k) CacheNode list \<Rightarrow> nat \<Rightarrow> (('b, 'k) CacheNode \<Rightarrow> ('b, 'k) CacheNode)
     \<Rightarrow> ('b, 'k) CacheNode list option" where
  "pop_after xs i upd =
     (if Suc i < length xs then Some (upd (xs ! Suc i) # unlink_after xs i) else None)"

text \<open>
  The scan of the branch \<^verbatim>\<open>currentSize == block_cache_max_items\<close>:
  \<^verbatim>\<open>for (iter = cache->head; (iter->next!=NULL)&&(iter->next->nFrm != frm); iter=iter->next)
  previter=iter;\<close>. It returns the final \<^verbatim>\<open>iter\<close> and \<^verbatim>\<open>previter\<close> (\<open>None\<close>: never assigned).
\<close>

function scan_next ::
  "'k \<Rightarrow> ('b, 'k) CacheNode list \<Rightarrow> nat \<Rightarrow> nat option \<Rightarrow> nat \<times> nat option" where
  "scan_next frm xs iter previter =
     (if Suc iter < length xs \<and> nFrm (xs ! Suc iter) \<noteq> frm
      then scan_next frm xs (Suc iter) (Some iter)
      else (iter, previter))"
  by pat_completeness auto
termination
  by (relation "measure (\<lambda>(frm, xs, iter, previter). length xs - iter)") auto

declare scan_next.simps [simp del]

text \<open>
  The scan of the last branch:
  \<^verbatim>\<open>for (iter = cache->head; (iter->next!=NULL)&&(iter->nFrm != frm); iter=iter->next)
  previter=iter;\<close>
\<close>

function scan_here ::
  "'k \<Rightarrow> ('b, 'k) CacheNode list \<Rightarrow> nat \<Rightarrow> nat option \<Rightarrow> nat \<times> nat option" where
  "scan_here frm xs iter previter =
     (if Suc iter < length xs \<and> nFrm (xs ! iter) \<noteq> frm
      then scan_here frm xs (Suc iter) (Some iter)
      else (iter, previter))"
  by pat_completeness auto
termination
  by (relation "measure (\<lambda>(frm, xs, iter, previter). length xs - iter)") auto

declare scan_here.simps [simp del]

text \<open>
  \<^verbatim>\<open>put_block_cache\<close>. Every branch but the first reads \<^verbatim>\<open>cache->head->nFrm\<close>, so an
  empty chain there is a null dereference. The test \<^verbatim>\<open>nbuf != buf\<close> only skips a copy of
  a buffer onto itself. The function always returns 0.
\<close>

definition put_block_cache ::
  "('b, 'k) cache_globals \<Rightarrow> 'b \<Rightarrow> 'k \<Rightarrow> frame_t \<Rightarrow> (int \<times> ('b, 'k) cache_globals) option" where
  "put_block_cache g block frm buf =
     (case cache g of
        None \<Rightarrow> None
      | Some c \<Rightarrow>
          let ret = (\<lambda>l. (0, g\<lparr>cache := Some (c\<lparr>head := l\<rparr>)\<rparr>));
              grow = (\<lambda>l. (0, g\<lparr>cache := Some (c\<lparr>head := l, currentSize := currentSize c + 1\<rparr>)\<rparr>))
          in
          if currentSize c = 0 then Some (grow (createNewNode block frm [] buf))
          else
            (case head c of
               [] \<Rightarrow> None
             | h # rest \<Rightarrow>
                 if currentSize c = 1 then
                   if nFrm h = frm then Some (ret (h\<lparr>nbuf := buf\<rparr> # rest))
                   else Some (grow (createNewNode block frm (head c) buf))
                 else if currentSize c = block_cache_max_items g then
                   if nFrm h = frm then Some (ret (h\<lparr>nbuf := buf\<rparr> # rest))
                   else
                     (case scan_next frm (head c) 0 None of
                        (iter, previter) \<Rightarrow>
                          if Suc iter < length (head c) then
                            map_option ret (pop_after (head c) iter (\<lambda>popVal. popVal\<lparr>nbuf := buf\<rparr>))
                          else
                            (case previter of
                               None \<Rightarrow> None
                             | Some p \<Rightarrow>
                                 map_option ret
                                   (pop_after (head c) p
                                      (\<lambda>popVal. popVal\<lparr>nBlock := block, nFrm := frm, nbuf := buf\<rparr>))))
                 else
                   if nFrm h = frm then Some (ret (h\<lparr>nbuf := buf\<rparr> # rest))
                   else
                     (case scan_here frm (head c) 0 None of
                        (iter, previter) \<Rightarrow>
                          if Suc iter < length (head c) then
                            (case previter of
                               None \<Rightarrow> None
                             | Some p \<Rightarrow>
                                 map_option ret
                                   (pop_after (head c) p (\<lambda>popVal. popVal\<lparr>nbuf := buf\<rparr>)))
                          else if nFrm (head c ! iter) = frm then
                            (case previter of
                               None \<Rightarrow> None
                             | Some p \<Rightarrow>
                                 map_option ret
                                   (pop_after (head c) p (\<lambda>popVal. popVal\<lparr>nbuf := buf\<rparr>)))
                          else Some (grow (createNewNode block frm (head c) buf)))))"

text \<open>
  \<^verbatim>\<open>get_block_cache\<close>: \<^verbatim>\<open>while ((iter->next != NULL)&&(iter->nFrm!=frm)) iter = iter->next;\<close>
  It returns the pointer to the cached frame (\<open>Some\<close> of its content) or \<^verbatim>\<open>NULL\<close>, and the
  globals as the call leaves them.
\<close>

function scan_get :: "'k \<Rightarrow> ('b, 'k) CacheNode list \<Rightarrow> nat \<Rightarrow> nat" where
  "scan_get frm xs iter =
     (if Suc iter < length xs \<and> nFrm (xs ! iter) \<noteq> frm then scan_get frm xs (Suc iter) else iter)"
  by pat_completeness auto
termination
  by (relation "measure (\<lambda>(frm, xs, iter). length xs - iter)") auto

declare scan_get.simps [simp del]

definition get_block_cache ::
  "('b, 'k) cache_globals \<Rightarrow> 'b \<Rightarrow> 'k \<Rightarrow> (frame_t option \<times> ('b, 'k) cache_globals) option" where
  "get_block_cache g block frm =
     (case cache g of
        None \<Rightarrow> None
      | Some c \<Rightarrow>
          (case head c of
             [] \<Rightarrow> Some (None, g)
           | h # rest \<Rightarrow>
               if nFrm h = frm then Some (Some (nbuf h), g)
               else
                 let iter = scan_get frm (head c) 0 in
                 if nFrm (head c ! iter) = frm then Some (Some (nbuf (head c ! iter)), g)
                 else Some (None, g)))"



section \<open>The protocol engine (block\_driver.c, executeOpcode)\<close>

text \<open>
  The surroundings of the driver that are not part of the sources: the bus
  \<^verbatim>\<open>block_io_bus\<close>, which takes the register and the frame buffer and returns the register
  of the reply (it may overwrite the buffer and change the device, whose state has the
  type \<open>'d\<close>), \<^verbatim>\<open>compute_frame_checksum\<close>, the opcodes and the number of frames of the
  device, \<^verbatim>\<open>BLOCK_BLOCK_SIZE\<close>. A buffer is \<open>None\<close> for the \<^verbatim>\<open>NULL\<close> that power-on and
  power-off pass.
\<close>

record 'd env =
  block_io_bus ::
    "'d \<Rightarrow> BlockXferRegister \<Rightarrow> frame_t option \<Rightarrow> BlockXferRegister \<times> frame_t option \<times> 'd"
  compute_frame_checksum :: "frame_t option \<Rightarrow> 32 word"
  BLOCK_OP_INITMS :: "32 word"
  BLOCK_OP_BZERO :: "32 word"
  BLOCK_OP_POWOFF :: "32 word"
  BLOCK_OP_RDFRME :: "32 word"
  BLOCK_OP_WRFRME :: "32 word"
  BLOCK_BLOCK_SIZE :: int

definition verify_cs1 :: "'d env \<Rightarrow> frame_t option \<Rightarrow> 32 word \<Rightarrow> int" where
  "verify_cs1 env frame cs1 = (if cs1 = compute_frame_checksum env frame then 0 else - 1)"

text \<open>
  One pass through the body of the loop of \<^verbatim>\<open>executeOpcode\<close>: it returns the final
  \<^verbatim>\<open>rt1\<close>, the device, the buffer, and \<^verbatim>\<open>ky1\<close> and \<^verbatim>\<open>fm1\<close> as \<^verbatim>\<open>unpack\<close> has overwritten
  them. \<^verbatim>\<open>rt1 = -1\<close> is the \<^verbatim>\<open>uint32_t\<close> value \<open>- 1\<close>.
\<close>

definition executeOpcode_body ::
  "'d env \<Rightarrow> 'd \<Rightarrow> frame_t option \<Rightarrow> 32 word \<Rightarrow> 32 word
     \<Rightarrow> 32 word \<times> 'd \<times> frame_t option \<times> 32 word \<times> 32 word" where
  "executeOpcode_body env d frame ky1 fm1 =
     (let cs1 = (if ky1 = BLOCK_OP_WRFRME env then compute_frame_checksum env frame else 0) in
      case block_io_bus env d (pack ky1 fm1 cs1 0) frame of
        (regstate, frame', d') \<Rightarrow>
          (case unpack regstate of
             (ky1', fm1', cs1', rt1') \<Rightarrow>
               (if ky1' = BLOCK_OP_RDFRME env
                then (if cs1' = compute_frame_checksum env frame' then 0 else - 1)
                else rt1',
                d', frame', ky1', fm1')))"

text \<open>
  \<^verbatim>\<open>rt1 = -1; while (rt1 != 0) { ... }\<close>: the body runs at least once. The function
  returns nothing; the result is the device and the buffer as the last exchange left
  them, and \<open>None\<close> when the loop never ends.
\<close>

partial_function (option) executeOpcode ::
  "'d env \<Rightarrow> 'd \<Rightarrow> frame_t option \<Rightarrow> 32 word \<Rightarrow> 32 word \<Rightarrow> ('d \<times> frame_t option) option" where
  "executeOpcode env d frame ky1 fm1 =
     (case executeOpcode_body env d frame ky1 fm1 of
        (rt1, d', frame', ky1', fm1') \<Rightarrow>
          if rt1 \<noteq> 0 then executeOpcode env d' frame' ky1' fm1' else Some (d', frame'))"

declare executeOpcode.simps [code]


section \<open>The file table (block\_driver.c)\<close>

text \<open>
  An array is a list whose length is the size of the array: \<^verbatim>\<open>name[128]\<close>,
  \<^verbatim>\<open>frames[1024]\<close> and the two tables of \<^verbatim>\<open>BLOCK_MAX_TOTAL_FILES\<close> entries (a macro of the
  missing header). The pointer \<^verbatim>\<open>file\<close> of a handle (\<open>file_p\<close>) is the index of the file in
  \<^verbatim>\<open>files\<close>, \<open>None\<close> for \<^verbatim>\<open>NULL\<close>; the field \<^verbatim>\<open>size\<close> of a file is \<open>size_f\<close>. The \<^verbatim>\<open>int\<close> fields are mathematical integers; the places where a
  conversion to a narrower or unsigned type changes the value are written out.
\<close>

record file_t =
  name :: "8 word list"
  size_f :: int
  frames :: "16 word list"
  nrFrames :: int

record fh_t =
  file_p :: "nat option"
  loc :: int
  status :: int

abbreviation (input) OPEN :: int where
  "OPEN \<equiv> 1"

abbreviation (input) CLOSED :: int where
  "CLOSED \<equiv> 0"

text \<open>
  The globals of the driver, with the globals of the cache module and the device
  behind the bus. Every function returns \<open>None\<close> where the C code has no defined
  result: an index outside an array, a null pointer dereferenced, a signed overflow, or
  an exchange with the bus that is never acknowledged.
\<close>

record 'd driver =
  isOn :: int
  nbFiles :: int
  nbHandles :: int
  freeFrameNr :: int
  files :: "file_t list"
  handles :: "fh_t list"
  cache_g :: "(32 word, 16 word) cache_globals"
  device :: 'd

text \<open>\<^verbatim>\<open>strlen\<close> of the bytes at a \<^verbatim>\<open>char*\<close>.\<close>

definition strlen :: "8 word list \<Rightarrow> nat" where
  "strlen s = length (takeWhile (\<lambda>c. c \<noteq> 0) s)"

text \<open>
  \<^verbatim>\<open>block_open\<close> copies and compares \<^verbatim>\<open>strlen(path)\<close> bytes at \<^verbatim>\<open>files[i].name\<close> with no
  test against the 128 bytes of \<^verbatim>\<open>name\<close>, so a longer path runs on into the memory that
  follows the name. That memory is the rest of \<^verbatim>\<open>struct file_data\<close> and the later
  entries of \<^verbatim>\<open>files\<close>: \<^verbatim>\<open>name\<close> at offset 0, \<^verbatim>\<open>size\<close> at 128, \<^verbatim>\<open>frames\<close> at 132 and
  \<^verbatim>\<open>nrFrames\<close> at 2180, 2184 bytes for each entry, integers with the low byte first.
  \<open>file_image\<close> is the bytes of one entry, \<open>file_of_image\<close> the entry that 2184 bytes
  stand for.
\<close>

fun of_le :: "8 word list \<Rightarrow> nat" where
  "of_le [] = 0"
| "of_le (b # bs) = unat b + 256 * of_le bs"

definition le16 :: "16 word \<Rightarrow> 8 word list" where
  "le16 w = [ucast w, ucast (drop_bit 8 w)]"

definition le32 :: "int \<Rightarrow> 8 word list" where
  "le32 x =
     (let w = (word_of_int x :: 32 word)
      in [ucast w, ucast (drop_bit 8 w), ucast (drop_bit 16 w), ucast (drop_bit 24 w)])"

definition of_le32 :: "8 word list \<Rightarrow> int" where
  "of_le32 bs = sint (of_nat (of_le bs) :: 32 word)"

fun of_le16s :: "8 word list \<Rightarrow> 16 word list" where
  "of_le16s (a # b # bs) = of_nat (of_le [a, b]) # of_le16s bs"
| "of_le16s bs = []"

definition file_image :: "file_t \<Rightarrow> 8 word list" where
  "file_image f = name f @ le32 (size_f f) @ concat (map le16 (frames f)) @ le32 (nrFrames f)"

definition file_of_image :: "8 word list \<Rightarrow> file_t" where
  "file_of_image bs =
     \<lparr>name = take 128 bs, size_f = of_le32 (take 4 (drop 128 bs)),
      frames = of_le16s (take 2048 (drop 132 bs)), nrFrames = of_le32 (take 4 (drop 2180 bs))\<rparr>"

definition files_image :: "file_t list \<Rightarrow> 8 word list" where
  "files_image fs = concat (map file_image fs)"

definition files_of_image :: "8 word list \<Rightarrow> file_t list" where
  "files_of_image bs =
     map (\<lambda>i. file_of_image (take 2184 (drop (i * 2184) bs))) [0 ..< length bs div 2184]"

text \<open>
  \<^verbatim>\<open>memcpy(files[k].name, src, n)\<close> with the \<open>n\<close> bytes \<open>src\<close>: inside \<^verbatim>\<open>name\<close> it changes the
  name only; a longer copy also overwrites the fields and the entries that follow. It has
  no result when it runs past the end of \<^verbatim>\<open>files\<close>, where the sources do not say what
  the memory holds.
\<close>

definition copy_name :: "file_t list \<Rightarrow> nat \<Rightarrow> 8 word list \<Rightarrow> file_t list option" where
  "copy_name fs k src =
     (if length fs \<le> k then None
      else if length src \<le> length (name (fs ! k)) then
        Some (fs[k := (fs ! k)\<lparr>name := src @ drop (length src) (name (fs ! k))\<rparr>])
      else if length src \<le> length (files_image (drop k fs)) then
        Some (take k fs @ files_of_image (src @ drop (length src) (files_image (drop k fs))))
      else None)"

text \<open>
  \<^verbatim>\<open>memcmp(files[i].name, s, n) == 0\<close>: the comparison is decided at the first byte that
  differs. It has no result when the bytes are equal up to the end of \<^verbatim>\<open>files\<close> and \<open>n\<close>
  goes further.
\<close>

definition memcmp_name :: "file_t list \<Rightarrow> nat \<Rightarrow> 8 word list \<Rightarrow> nat \<Rightarrow> bool option" where
  "memcmp_name fs i s n =
     (if length fs \<le> i then None
      else if n \<le> length (name (fs ! i)) then Some (take n (name (fs ! i)) = take n s)
      else
        let mem = files_image (drop i fs); m = min n (length mem) in
        if take m mem \<noteq> take m s then Some False
        else if n \<le> length mem then Some True
        else None)"

text \<open>
  \<^verbatim>\<open>createNewFile(path, &files[k])\<close>:
  \<^verbatim>\<open>memcpy(file->name, path, strlen(path)); file->size = 0; file->nrFrames = 0;\<close>
\<close>

definition createNewFile :: "8 word list \<Rightarrow> file_t list \<Rightarrow> nat \<Rightarrow> (int \<times> file_t list) option" where
  "createNewFile path fs k =
     (case copy_name fs k (take (strlen path) path) of
        None \<Rightarrow> None
      | Some fs' \<Rightarrow> Some (0, fs'[k := (fs' ! k)\<lparr>size_f := 0, nrFrames := 0\<rparr>]))"

definition openFile :: "fh_t \<Rightarrow> nat \<Rightarrow> int \<times> fh_t" where
  "openFile handle fi = (0, handle\<lparr>file_p := Some fi, loc := 0, status := OPEN\<rparr>)"

definition closeFile :: "fh_t \<Rightarrow> fh_t" where
  "closeFile handle = handle\<lparr>status := CLOSED, loc := - 1, file_p := None\<rparr>"

definition closeAllFiles :: "fh_t list \<Rightarrow> fh_t list" where
  "closeAllFiles hs = map closeFile hs"

text \<open>
  \<^verbatim>\<open>getNbFiles\<close>: the index of the first file whose name is empty, or the size of the
  table.
\<close>

fun getNbFiles :: "file_t list \<Rightarrow> int" where
  "getNbFiles [] = 0"
| "getNbFiles (f # fs) = (if strlen (name f) = 0 then 0 else 1 + getNbFiles fs)"

text \<open>
  \<^verbatim>\<open>getFreeFrame\<close>: both loops start at \<^verbatim>\<open>i = BLOCK_MAX_TOTAL_FILES\<close>, so the first never
  runs, the array \<^verbatim>\<open>frames\<close> stays zero, and the second returns at its first index, if it
  has one.
\<close>

definition getFreeFrame :: "'d env \<Rightarrow> file_t list \<Rightarrow> int" where
  "getFreeFrame env fs = (if int (length fs) < BLOCK_BLOCK_SIZE env then int (length fs) else - 1)"

text \<open>
  The scan of \<^verbatim>\<open>block_open\<close>: \<^verbatim>\<open>while (i < nbFiles && !found)\<close> with
  \<^verbatim>\<open>memcmp(files[i].name, path, strlen(path)) == 0\<close>; it returns \<^verbatim>\<open>found\<close> and \<^verbatim>\<open>i\<close>.
\<close>

function open_scan :: "file_t list \<Rightarrow> int \<Rightarrow> 8 word list \<Rightarrow> nat \<Rightarrow> (bool \<times> nat) option" where
  "open_scan fs nb path i =
     (if int i < nb then
        (case memcmp_name fs i path (strlen path) of
           None \<Rightarrow> None
         | Some eq \<Rightarrow> if eq then Some (True, i) else open_scan fs nb path (Suc i))
      else Some (False, i))"
  by pat_completeness auto
termination
  by (relation "measure (\<lambda>(fs, nb, path, i). nat (nb - int i))") auto

declare open_scan.simps [simp del]

text \<open>\<^verbatim>\<open>block_open\<close>; the result \<^verbatim>\<open>fd\<close> is \<^verbatim>\<open>nbHandles\<close> converted to \<^verbatim>\<open>int16_t\<close>.\<close>

definition block_open :: "'d driver \<Rightarrow> 8 word list \<Rightarrow> (int \<times> 'd driver) option" where
  "block_open s path =
     (if isOn s = 0 then Some (- 1, s)
      else
        (case open_scan (files s) (nbFiles s) path 0 of
           None \<Rightarrow> None
         | Some (found, i) \<Rightarrow>
             (case (if found then Some (i, s)
                    else if 0 \<le> nbFiles s \<and> nat (nbFiles s) < length (files s) then
                      (case createNewFile path (files s) (nat (nbFiles s)) of
                         None \<Rightarrow> None
                       | Some (r, fs') \<Rightarrow>
                           Some (nat (nbFiles s), s\<lparr>files := fs', nbFiles := nbFiles s + 1\<rparr>))
                    else None) of
                None \<Rightarrow> None
              | Some (i', s') \<Rightarrow>
                  if 0 \<le> nbHandles s' \<and> nat (nbHandles s') < length (handles s') then
                    Some (sint (word_of_int (nbHandles s') :: 16 word),
                          s'\<lparr>handles := (handles s')
                                [nat (nbHandles s') := snd (openFile (handles s' ! nat (nbHandles s')) i')],
                             nbHandles := nbHandles s' + 1\<rparr>)
                  else None)))"

definition block_close :: "'d driver \<Rightarrow> int \<Rightarrow> (int \<times> 'd driver) option" where
  "block_close s fd =
     (if isOn s = 0 then Some (- 1, s)
      else if fd < 0 \<or> length (handles s) \<le> nat fd then None
      else if status (handles s ! nat fd) = CLOSED then Some (- 1, s)
      else Some (0, s\<lparr>handles := (handles s)[nat fd := closeFile (handles s ! nat fd)]\<rparr>))"

text \<open>
  The lines that \<^verbatim>\<open>block_read\<close> and \<^verbatim>\<open>block_write\<close> share: look the frame up in the
  cache and copy it into \<^verbatim>\<open>frame\<close>, or else read it from the device into \<^verbatim>\<open>frame\<close> and put
  it into the cache.
\<close>

definition fetch_frame ::
  "'d env \<Rightarrow> 'd driver \<Rightarrow> frame_t \<Rightarrow> 16 word \<Rightarrow> ('d driver \<times> frame_t) option" where
  "fetch_frame env s frame frame_nr =
     (case get_block_cache (cache_g s) 0 frame_nr of
        None \<Rightarrow> None
      | Some (cacheBuf, g) \<Rightarrow>
          (case cacheBuf of
             Some cb \<Rightarrow> Some (s\<lparr>cache_g := g\<rparr>, cb)
           | None \<Rightarrow>
               (case executeOpcode env (device s) (Some frame) (BLOCK_OP_RDFRME env) (ucast frame_nr) of
                  None \<Rightarrow> None
                | Some (d, None) \<Rightarrow> None
                | Some (d, Some frame') \<Rightarrow>
                    (case put_block_cache g 0 frame_nr frame' of
                       None \<Rightarrow> None
                     | Some (r, g') \<Rightarrow> Some (s\<lparr>device := d, cache_g := g'\<rparr>, frame')))))"






text \<open>
  The loop of \<^verbatim>\<open>allocateNewFrames\<close> on the frame array of the file, \<^verbatim>\<open>freeFrameNr\<close> and
  the local \<^verbatim>\<open>uint16_t nrFrames\<close>; \<open>target\<close> is \<^verbatim>\<open>loc + count\<close>. The store into \<^verbatim>\<open>frames\<close>
  truncates \<^verbatim>\<open>freeFrameNr\<close> to 16 bits, and \<^verbatim>\<open>freeFrameNr++\<close> at \<open>2 ^ 31 - 1\<close> is a signed
  overflow. It returns \<open>- 1\<close> from inside the loop, with what it has written so far, and
  0 after it.
\<close>

function allocate_loop ::
  "int \<Rightarrow> int \<Rightarrow> 16 word list \<Rightarrow> int \<Rightarrow> 16 word \<Rightarrow> (int \<times> 16 word list \<times> int \<times> 16 word) option" where
  "allocate_loop bsize target frs free nr =
     (if target > int (unat nr) * BLOCK_FRAME_SIZE then
        (if length frs \<le> unat nr then None
         else if 2 ^ 31 \<le> free + 1 then None
         else if free + 1 > bsize then Some (- 1, frs[unat nr := word_of_int free], free + 1, nr + 1)
         else allocate_loop bsize target (frs[unat nr := word_of_int free]) (free + 1) (nr + 1))
      else Some (0, frs, free, nr))"
  by pat_completeness auto
termination
  by (relation "measure (\<lambda>(bsize, target, frs, free, nr). nat (bsize - free))") auto

declare allocate_loop.simps [simp del]

text \<open>
  \<^verbatim>\<open>allocateNewFrames(&handles[fd], count)\<close>: the count of frames goes back into the file
  only on the path that returns 0.
\<close>

definition allocateNewFrames :: "'d env \<Rightarrow> 'd driver \<Rightarrow> nat \<Rightarrow> int \<Rightarrow> (int \<times> 'd driver) option" where
  "allocateNewFrames env s fd count =
     (if length (handles s) \<le> fd then None
      else
        (case file_p (handles s ! fd) of
           None \<Rightarrow> None
         | Some fi \<Rightarrow>
             if length (files s) \<le> fi then None
             else if loc (handles s ! fd) + count < - (2 ^ 31) \<or> 2 ^ 31 \<le> loc (handles s ! fd) + count
             then None
             else
               (case allocate_loop (BLOCK_BLOCK_SIZE env) (loc (handles s ! fd) + count)
                       (frames (files s ! fi)) (freeFrameNr s) (word_of_int (nrFrames (files s ! fi))) of
                  None \<Rightarrow> None
                | Some (r, frs, free, nr) \<Rightarrow>
                    if r = - 1 then
                      Some (- 1, s\<lparr>files := (files s)[fi := (files s ! fi)\<lparr>frames := frs\<rparr>],
                                    freeFrameNr := free\<rparr>)
                    else
                      Some (0, s\<lparr>files := (files s)[fi := (files s ! fi)\<lparr>frames := frs,
                                                          nrFrames := int (unat nr)\<rparr>],
                                  freeFrameNr := free\<rparr>))))"

text \<open>
  One pass through the loop of \<^verbatim>\<open>block_write\<close>; \<open>buf\<close> is the caller's buffer, which the
  loop only reads.
\<close>

definition block_write_body ::
  "'d env \<Rightarrow> nat \<Rightarrow> 8 word list \<Rightarrow> 'd driver \<times> frame_t \<times> int \<times> int \<times> int
     \<Rightarrow> ('d driver \<times> frame_t \<times> int \<times> int \<times> int) option" where
  "block_write_body env fi buf st =
     (case st of
        (s, frame, loc', remaining, bufOffset) \<Rightarrow>
          if loc' < 0 \<or> length (files s) \<le> fi then None
          else
            let idx = nat (loc' div BLOCK_FRAME_SIZE);
                frame_offset = loc' mod BLOCK_FRAME_SIZE
            in
            if length (frames (files s ! fi)) \<le> idx then None
            else
              let frame_nr = frames (files s ! fi) ! idx in
              (case fetch_frame env s frame frame_nr of
                 None \<Rightarrow> None
               | Some (s1, frame1) \<Rightarrow>
                   let data_size =
                         (if BLOCK_FRAME_SIZE - frame_offset > remaining then remaining
                          else BLOCK_FRAME_SIZE - frame_offset)
                   in
                   if int (length buf) < bufOffset + data_size then None
                   else
                     let frame2 =
                           frame_store frame1 (nat frame_offset)
                             (take (nat data_size) (drop (nat bufOffset) buf))
                     in
                     (case executeOpcode env (device s1) (Some frame2) (BLOCK_OP_WRFRME env)
                             (ucast frame_nr) of
                        None \<Rightarrow> None
                      | Some (d, None) \<Rightarrow> None
                      | Some (d, Some frame3) \<Rightarrow>
                          (case put_block_cache (cache_g s1) 0 frame_nr frame3 of
                             None \<Rightarrow> None
                           | Some (r, g) \<Rightarrow>
                               Some (s1\<lparr>device := d, cache_g := g\<rparr>, frame3,
                                     loc' + data_size, remaining - data_size,
                                     bufOffset + data_size)))))"

lemma block_write_body_remaining:
  assumes "block_write_body env fi buf (s, frame, l, remaining, bufOffset)
             = Some (s', frame', l', remaining', bufOffset')"
    and "0 < remaining"
  shows "0 \<le> remaining' \<and> remaining' < remaining"
  using assms
  by (auto simp add: block_write_body_def Let_def split: if_splits option.splits prod.splits)

function block_write_loop ::
  "'d env \<Rightarrow> nat \<Rightarrow> 8 word list \<Rightarrow> 'd driver \<times> frame_t \<times> int \<times> int \<times> int
     \<Rightarrow> ('d driver \<times> frame_t \<times> int \<times> int \<times> int) option" where
  "block_write_loop env fi buf (s, frame, loc', remaining, bufOffset) =
     (if remaining > 0 then
        (case block_write_body env fi buf (s, frame, loc', remaining, bufOffset) of
           None \<Rightarrow> None
         | Some st' \<Rightarrow> block_write_loop env fi buf st')
      else Some (s, frame, loc', remaining, bufOffset))"
  by pat_completeness auto
termination
proof (relation "measure (\<lambda>(env, fi, buf, s, frame, l, remaining, bufOffset). nat remaining)")
  show "wf (measure (\<lambda>(env :: 'd env, fi :: nat, buf :: 8 word list, s :: 'd driver,
          frame :: frame_t, l :: int, remaining :: int, bufOffset :: int). nat remaining))"
    by simp
next
  fix env :: "'d env" and fi buf s frame l remaining bufOffset st'
  assume r: "0 < remaining"
    and b: "block_write_body env fi buf (s, frame, l, remaining, bufOffset) = Some st'"
  obtain s' frame' l' remaining' bufOffset'
    where st': "st' = (s', frame', l', remaining', bufOffset')"
    by (cases st') auto
  from block_write_body_remaining [OF b [unfolded st'] r]
  show "((env, fi, buf, st'), (env, fi, buf, s, frame, l, remaining, bufOffset))
          \<in> measure (\<lambda>(env, fi, buf, s, frame, l, remaining, bufOffset). nat remaining)"
    by (simp add: st')
qed

declare block_write_loop.simps [simp del]

text \<open>
  \<^verbatim>\<open>block_write\<close>. It does not test \<^verbatim>\<open>isOn\<close>. \<^verbatim>\<open>file->size += count\<close> is a signed
  addition.
\<close>

definition block_write ::
  "'d env \<Rightarrow> 'd driver \<Rightarrow> int \<Rightarrow> 8 word list \<Rightarrow> int \<Rightarrow> frame_t \<Rightarrow> (int \<times> 'd driver) option" where
  "block_write env s fd buf count frame0 =
     (if fd < 0 \<or> length (handles s) \<le> nat fd then None
      else if status (handles s ! nat fd) = CLOSED then Some (- 1, s)
      else
        (case file_p (handles s ! nat fd) of
           None \<Rightarrow> None
         | Some fi \<Rightarrow>
             (case allocateNewFrames env s (nat fd) count of
                None \<Rightarrow> None
              | Some (r, s1) \<Rightarrow>
                  if r = - 1 then Some (- 1, s1)
                  else
                    (case block_write_loop env fi buf
                            (s1, frame0, loc (handles s ! nat fd), count, 0) of
                       None \<Rightarrow> None
                     | Some (s2, frame', l', remaining', bufOffset') \<Rightarrow>
                         if length (files s2) \<le> fi
                            \<or> size_f (files s2 ! fi) + count < - (2 ^ 31)
                            \<or> 2 ^ 31 \<le> size_f (files s2 ! fi) + count
                         then None
                         else
                           Some (count,
                                 s2\<lparr>handles := (handles s2)[nat fd := (handles s2 ! nat fd)\<lparr>loc := l'\<rparr>],
                                    files := (files s2)[fi := (files s2 ! fi)
                                               \<lparr>size_f := size_f (files s2 ! fi) + count\<rparr>]\<rparr>)))))"

text \<open>
  \<^verbatim>\<open>block_seek\<close>: \<^verbatim>\<open>loc\<close> is a \<^verbatim>\<open>uint32_t\<close>, so \<^verbatim>\<open>file->size < loc\<close> compares the size as an
  unsigned value, and the assignment to the \<^verbatim>\<open>int\<close> cursor reads \<^verbatim>\<open>loc\<close> as signed.
\<close>

definition block_seek :: "'d driver \<Rightarrow> int \<Rightarrow> 32 word \<Rightarrow> (int \<times> 'd driver) option" where
  "block_seek s fd l =
     (if fd < 0 \<or> length (handles s) \<le> nat fd then None
      else if status (handles s ! nat fd) = CLOSED then Some (- 1, s)
      else
        (case file_p (handles s ! nat fd) of
           None \<Rightarrow> None
         | Some fi \<Rightarrow>
             if length (files s) \<le> fi then None
             else if (word_of_int (size_f (files s ! fi)) :: 32 word) < l then Some (- 1, s)
             else Some (0, s\<lparr>handles := (handles s)[nat fd := (handles s ! nat fd)\<lparr>loc := sint l\<rparr>]\<rparr>)))"

text \<open>
  \<^verbatim>\<open>block_poweron\<close>: the two opcodes, then \<^verbatim>\<open>memset\<close> of every entry of the two tables,
  the counters, and the cache. \<^verbatim>\<open>isOn\<close> is set between the two opcodes.
\<close>

definition zero_file :: file_t where
  "zero_file = \<lparr>name = replicate 128 0, size_f = 0, frames = replicate 1024 0, nrFrames = 0\<rparr>"

definition zero_handle :: fh_t where
  "zero_handle = \<lparr>file_p = None, loc = 0, status = 0\<rparr>"

definition block_poweron :: "'d env \<Rightarrow> 'd driver \<Rightarrow> (int \<times> 'd driver) option" where
  "block_poweron env s =
     (if isOn s \<noteq> 0 then Some (- 1, s)
      else
        (case executeOpcode env (device s) None (BLOCK_OP_INITMS env) 0 of
           None \<Rightarrow> None
         | Some (d1, b1) \<Rightarrow>
             (case executeOpcode env d1 None (BLOCK_OP_BZERO env) 0 of
                None \<Rightarrow> None
              | Some (d2, b2) \<Rightarrow>
                  let fs = map (\<lambda>f. zero_file) (files s);
                      hs = map (\<lambda>h. zero_handle) (handles s)
                  in
                  (case init_block_cache (cache_g s) of
                     (r, g) \<Rightarrow>
                       Some (if r \<noteq> 0 then - 1 else 0,
                             s\<lparr>isOn := 1, files := fs, handles := hs, nbHandles := 0,
                               freeFrameNr := getFreeFrame env fs, nbFiles := getNbFiles fs,
                               cache_g := g, device := d2\<rparr>)))))"

text \<open>\<^verbatim>\<open>block_poweroff\<close>; it leaves \<^verbatim>\<open>isOn\<close> as it is.\<close>

definition block_poweroff :: "'d env \<Rightarrow> 'd driver \<Rightarrow> (int \<times> 'd driver) option" where
  "block_poweroff env s =
     (if isOn s = 0 then Some (- 1, s)
      else
        (case executeOpcode env (device s) None (BLOCK_OP_POWOFF env) 0 of
           None \<Rightarrow> None
         | Some (d, b) \<Rightarrow>
             (case close_block_cache (cache_g s) of
                None \<Rightarrow> None
              | Some (r, g) \<Rightarrow>
                  Some (if r \<noteq> 0 then - 1 else 0,
                        s\<lparr>handles := closeAllFiles (handles s), nbFiles := 0, nbHandles := 0,
                          freeFrameNr := 0, cache_g := g, device := d\<rparr>))))"


section \<open>Notions of the specification of the cache\<close>

text \<open>
  The \<^verbatim>\<open>upsert\<close> of the specification, on the recency list with the most recent entry
  first: into an empty cache, insert; an entry with the same frame index gets the new
  content and moves to the front; otherwise a new entry goes to the front, and at
  capacity the tail is dropped.
\<close>

definition upsert ::
  "nat \<Rightarrow> ('b, 'k) CacheNode list \<Rightarrow> 'b \<Rightarrow> 'k \<Rightarrow> frame_t \<Rightarrow> ('b, 'k) CacheNode list" where
  "upsert cap xs block frm content =
     (if xs = [] then [\<lparr>nBlock = block, nFrm = frm, nbuf = content\<rparr>]
      else
        (case dropWhile (\<lambda>n. nFrm n \<noteq> frm) xs of
           y # rest \<Rightarrow> y\<lparr>nbuf := content\<rparr> # takeWhile (\<lambda>n. nFrm n \<noteq> frm) xs @ rest
         | [] \<Rightarrow>
             if length xs < cap then \<lparr>nBlock = block, nFrm = frm, nbuf = content\<rparr> # xs
             else \<lparr>nBlock = block, nFrm = frm, nbuf = content\<rparr> # butlast xs))"

text \<open>
  The state of an initialised cache whose capacity is at least two: the counter is
  the number of nodes of the chain, and the chain is no longer than the capacity.
\<close>

definition cache_ok :: "('b, 'k) cache_globals \<Rightarrow> bool" where
  "cache_ok g =
     (case cache g of
        None \<Rightarrow> False
      | Some c \<Rightarrow>
          2 \<le> unat (block_cache_max_items g)
          \<and> length (head c) \<le> unat (block_cache_max_items g)
          \<and> currentSize c = of_nat (length (head c)))"

text \<open>
  The state of an initialised cache of any capacity: the counter is the number of nodes
  of the chain, as \<^verbatim>\<open>uint32_t\<close>, and a capacity of at least two bounds the chain.
\<close>

definition cache_wf :: "('b, 'k) cache_globals \<Rightarrow> bool" where
  "cache_wf g =
     (case cache g of
        None \<Rightarrow> False
      | Some c \<Rightarrow>
          currentSize c = of_nat (length (head c))
          \<and> (unat (block_cache_max_items g) < 2 \<or> length (head c) \<le> unat (block_cache_max_items g)))"

text \<open>A sequence of calls of \<^verbatim>\<open>get_block_cache\<close>, one after the other.\<close>

fun lookups ::
  "('b, 'k) cache_globals \<Rightarrow> ('b \<times> 'k) list \<Rightarrow> ('b, 'k) cache_globals option" where
  "lookups g [] = Some g"
| "lookups g ((block, frm) # ks) =
     (case get_block_cache g block frm of None \<Rightarrow> None | Some (r, g') \<Rightarrow> lookups g' ks)"

text \<open>The content the cache holds for a frame index: that of the first node with it.\<close>

definition cached :: "('b, 'k) cache_globals \<Rightarrow> 'k \<Rightarrow> frame_t option" where
  "cached g frm =
     (case cache g of
        None \<Rightarrow> None
      | Some c \<Rightarrow> map_option nbuf (find (\<lambda>n. nFrm n = frm) (head c)))"

text \<open>Three states of the cache, for the examples.\<close>

definition two_entries :: "(32 word, 16 word) cache_globals" where
  "two_entries =
     \<lparr>block_cache_max_items = 2,
      cache = Some \<lparr>currentSize = 2,
                    head = [\<lparr>nBlock = 0, nFrm = 7, nbuf = zero_frame\<rparr>,
                            \<lparr>nBlock = 0, nFrm = 5, nbuf = frame_store zero_frame 0 [1]\<rparr>]\<rparr>\<rparr>"

definition capacity_one :: "(32 word, 16 word) cache_globals" where
  "capacity_one =
     snd (init_block_cache (snd (set_block_cache_size \<lparr>block_cache_max_items = 0, cache = None\<rparr> 1)))"

definition full_of_one :: "(32 word, 16 word) cache_globals" where
  "full_of_one =
     \<lparr>block_cache_max_items = 1,
      cache = Some \<lparr>currentSize = 1, head = [\<lparr>nBlock = 0, nFrm = 100, nbuf = zero_frame\<rparr>]\<rparr>\<rparr>"


section \<open>Notions of the specification of the protocol engine\<close>

text \<open>
  The checksum of a request: computed over the buffer if and only if the opcode is
  frame-write, 0 for every other opcode.
\<close>

definition request_checksum :: "'d env \<Rightarrow> 32 word \<Rightarrow> frame_t option \<Rightarrow> 32 word" where
  "request_checksum env opcode buffer =
     (if opcode = BLOCK_OP_WRFRME env then compute_frame_checksum env buffer else 0)"

text \<open>
  The judgement of a reply: when the returned opcode is frame-read, the checksum
  recomputed over the returned buffer is the returned checksum field; for every other
  opcode, the return code is 0.
\<close>

definition acknowledged :: "'d env \<Rightarrow> BlockXferRegister \<Rightarrow> frame_t option \<Rightarrow> bool" where
  "acknowledged env reply buffer =
     (case unpack reply of
        (opcode', frameIndex', checksum', returnCode') \<Rightarrow>
          if opcode' = BLOCK_OP_RDFRME env then checksum' = compute_frame_checksum env buffer
          else returnCode' = 0)"

text \<open>
  The exchange of the caller's \<open>(opcode, frameIndex)\<close> from a device and a buffer: the
  register \<open>(opcode, frameIndex, checksum, 0)\<close> and the buffer go to the bus, which
  returns the register of the reply, the buffer and the device.
\<close>

definition exchange ::
  "'d env \<Rightarrow> 'd \<times> frame_t option \<times> 32 word \<times> 32 word
     \<Rightarrow> BlockXferRegister \<times> frame_t option \<times> 'd" where
  "exchange env st =
     (case st of
        (d, buffer, opcode, frameIndex) \<Rightarrow>
          block_io_bus env d (pack opcode frameIndex (request_checksum env opcode buffer) 0) buffer)"

text \<open>
  The repetition of the specification: \<open>once\<close> is the device and the buffer that one
  exchange of \<open>(opcode, frameIndex)\<close> leaves, \<open>repeated n\<close> what \<open>n\<close> exchanges of the same
  \<open>(opcode, frameIndex)\<close> leave, and \<open>succeeds\<close> says that the exchange of
  \<open>(opcode, frameIndex)\<close> from a device and a buffer is acknowledged.
\<close>

definition once ::
  "'d env \<Rightarrow> 32 word \<Rightarrow> 32 word \<Rightarrow> 'd \<times> frame_t option \<Rightarrow> 'd \<times> frame_t option" where
  "once env opcode frameIndex st =
     (case exchange env (fst st, snd st, opcode, frameIndex) of (reply, buffer', d') \<Rightarrow> (d', buffer'))"

fun repeated ::
  "'d env \<Rightarrow> 32 word \<Rightarrow> 32 word \<Rightarrow> nat \<Rightarrow> 'd \<times> frame_t option \<Rightarrow> 'd \<times> frame_t option" where
  "repeated env opcode frameIndex 0 st = st"
| "repeated env opcode frameIndex (Suc n) st =
     repeated env opcode frameIndex n (once env opcode frameIndex st)"





section \<open>Notions of the specification of the file table, and examples\<close>

text \<open>
  The comparison of \<^verbatim>\<open>block_open\<close>: the first \<^verbatim>\<open>strlen(path)\<close> bytes of the stored name
  are those of the path.
\<close>

definition name_matches :: "8 word list \<Rightarrow> file_t \<Rightarrow> bool" where
  "name_matches path f = (take (strlen path) (name f) = take (strlen path) path)"

text \<open>
  A device for the examples that keeps what is written to it: frames indexed by the
  frame field of the register, all zero after \<^verbatim>\<open>BLOCK_OP_BZERO\<close>; a read returns the
  stored frame and its checksum, a write stores the buffer and echoes the register.
\<close>

definition ideal_checksum :: "frame_t option \<Rightarrow> 32 word" where
  "ideal_checksum fb = (case fb of None \<Rightarrow> 0 | Some f \<Rightarrow> sum_list (map ucast (frame_bytes f)))"

definition ideal_bus ::
  "(32 word \<Rightarrow> frame_t) \<Rightarrow> BlockXferRegister \<Rightarrow> frame_t option
     \<Rightarrow> BlockXferRegister \<times> frame_t option \<times> (32 word \<Rightarrow> frame_t)" where
  "ideal_bus d reg fb =
     (case unpack reg of
        (ky1, fm1, cs1, rt1) \<Rightarrow>
          if ky1 = 3 then
            (pack ky1 fm1 (ideal_checksum (Some (d fm1))) 0,
             (case fb of None \<Rightarrow> None | Some f \<Rightarrow> Some (d fm1)), d)
          else if ky1 = 4 then
            (case fb of
               None \<Rightarrow> (pack ky1 fm1 cs1 1, fb, d)
             | Some f \<Rightarrow> (pack ky1 fm1 cs1 0, fb, d(fm1 := f)))
          else if ky1 = 1 then (pack ky1 fm1 0 0, fb, (\<lambda>fm. zero_frame))
          else (pack ky1 fm1 0 0, fb, d))"

definition ideal_env :: "(32 word \<Rightarrow> frame_t) env" where
  "ideal_env =
     \<lparr>block_io_bus = ideal_bus, compute_frame_checksum = ideal_checksum,
      BLOCK_OP_INITMS = 0, BLOCK_OP_BZERO = 1, BLOCK_OP_POWOFF = 2, BLOCK_OP_RDFRME = 3,
      BLOCK_OP_WRFRME = 4, BLOCK_BLOCK_SIZE = 65536\<rparr>"


text \<open>
  The driver after power-on with tables of four entries and \<^verbatim>\<open>block_open("a")\<close>; the
  same with the handle closed; and the driver after \<^verbatim>\<open>block_write\<close> of 16384 bytes to
  that file on the device of eight frames, which has given out its last frame.
\<close>

definition file_a :: file_t where
  "file_a = zero_file\<lparr>name := 97 # replicate 127 0\<rparr>"

definition one_open :: "(32 word \<Rightarrow> frame_t) driver" where
  "one_open =
     \<lparr>isOn = 1, nbFiles = 1, nbHandles = 1, freeFrameNr = 4,
      files = [file_a, zero_file, zero_file, zero_file],
      handles = [\<lparr>file_p = Some 0, loc = 0, status = OPEN\<rparr>, zero_handle, zero_handle, zero_handle],
      cache_g = \<lparr>block_cache_max_items = 2, cache = Some \<lparr>currentSize = 0, head = []\<rparr>\<rparr>,
      device = (\<lambda>fm. zero_frame)\<rparr>"

definition one_closed :: "(32 word \<Rightarrow> frame_t) driver" where
  "one_closed = one_open\<lparr>handles := [\<lparr>file_p = None, loc = - 1, status = CLOSED\<rparr>,
                                        zero_handle, zero_handle, zero_handle]\<rparr>"

definition file_full :: "(32 word \<Rightarrow> frame_t) driver" where
  "file_full =
     \<lparr>isOn = 1, nbFiles = 1, nbHandles = 1, freeFrameNr = 8,
      files = [file_a\<lparr>size_f := 16384, frames := [4, 5, 6, 7] @ replicate 1020 0, nrFrames := 4\<rparr>,
               zero_file, zero_file, zero_file],
      handles = [\<lparr>file_p = Some 0, loc = 16384, status = OPEN\<rparr>, zero_handle, zero_handle, zero_handle],
      cache_g = \<lparr>block_cache_max_items = 2, cache = Some \<lparr>currentSize = 0, head = []\<rparr>\<rparr>,
      device = (\<lambda>fm. zero_frame)\<rparr>"

text \<open>The driver after power-on, with tables of four entries.\<close>

definition powered_on :: "(32 word \<Rightarrow> frame_t) driver" where
  "powered_on =
     \<lparr>isOn = 1, nbFiles = 0, nbHandles = 0, freeFrameNr = 4,
      files = [zero_file, zero_file, zero_file, zero_file],
      handles = [zero_handle, zero_handle, zero_handle, zero_handle],
      cache_g = \<lparr>block_cache_max_items = 2, cache = Some \<lparr>currentSize = 0, head = []\<rparr>\<rparr>,
      device = (\<lambda>fm. zero_frame)\<rparr>"

section \<open>Notions of the specification of the transfers\<close>



text \<open>
  Both conditions in one, which is more than the transport of claim C1: the round trip
  needs the second one too.
\<close>

definition faithful_bus :: "'d env \<Rightarrow> ('d \<Rightarrow> 32 word \<Rightarrow> frame_t) \<Rightarrow> bool" where
  "faithful_bus env stored =
     (\<forall>d f fm. unat fm < 2 ^ 16 \<longrightarrow>
        (case exchange env (d, Some f, BLOCK_OP_WRFRME env, fm) of
           (reply, buffer', d') \<Rightarrow>
             acknowledged env reply buffer' \<and> buffer' = Some f \<and> stored d' = (stored d)(fm := f))
        \<and> (case exchange env (d, Some f, BLOCK_OP_RDFRME env, fm) of
             (reply, buffer', d') \<Rightarrow>
               acknowledged env reply buffer' \<and> buffer' = Some (stored d fm) \<and> stored d' = stored d))"



text \<open>
  The cache agrees with the device at a frame: either the frame is not cached, or the
  cached content is the stored one.
\<close>

definition agrees :: "('d \<Rightarrow> 32 word \<Rightarrow> frame_t) \<Rightarrow> 'd driver \<Rightarrow> 16 word \<Rightarrow> bool" where
  "agrees stored s fn =
     (cached (cache_g s) fn = None \<or> cached (cache_g s) fn = Some (stored (device s) (ucast fn)))"

text \<open>
  The number of bytes that one turn of the loops of \<^verbatim>\<open>block_read\<close> and \<^verbatim>\<open>block_write\<close>
  transfers at the cursor \<open>l\<close> (\<^verbatim>\<open>data_size\<close>, \<^verbatim>\<open>dsize\<close>), and the frame content that such a
  turn works on: the cached one if there is one, the stored one otherwise.
\<close>

definition chunk_size :: "int \<Rightarrow> int \<Rightarrow> int" where
  "chunk_size l remaining =
     (if BLOCK_FRAME_SIZE - l mod BLOCK_FRAME_SIZE > remaining then remaining
      else BLOCK_FRAME_SIZE - l mod BLOCK_FRAME_SIZE)"

definition fetched :: "('d \<Rightarrow> 32 word \<Rightarrow> frame_t) \<Rightarrow> 'd driver \<Rightarrow> 16 word \<Rightarrow> frame_t" where
  "fetched stored s fn =
     (case cached (cache_g s) fn of Some c \<Rightarrow> c | None \<Rightarrow> stored (device s) (ucast fn))"

text \<open>
  The byte of a file at the offset \<open>x\<close>, as the device holds it, for a file with the frame
  array \<open>frs\<close>; and the statement that the device holds the bytes of \<open>buf\<close> at the offsets
  from \<open>loc0\<close> up to \<open>l\<close>, in frames at which the cache agrees with the device.
\<close>

definition device_byte ::
  "('d \<Rightarrow> 32 word \<Rightarrow> frame_t) \<Rightarrow> 'd driver \<Rightarrow> 16 word list \<Rightarrow> int \<Rightarrow> 8 word" where
  "device_byte stored s frs x =
     frame_bytes (stored (device s) (ucast (frs ! nat (x div BLOCK_FRAME_SIZE)))) ! nat (x mod BLOCK_FRAME_SIZE)"

definition written ::
  "('d \<Rightarrow> 32 word \<Rightarrow> frame_t) \<Rightarrow> 'd driver \<Rightarrow> 16 word list \<Rightarrow> int \<Rightarrow> 8 word list \<Rightarrow> int \<Rightarrow> bool" where
  "written stored s frs loc0 buf l =
     (\<forall>x. loc0 \<le> x \<and> x < l \<longrightarrow>
        device_byte stored s frs x = buf ! nat (x - loc0)
        \<and> agrees stored s (frs ! nat (x div BLOCK_FRAME_SIZE)))"

text \<open>
  A file of a well-formed file table: the frame array has the 1024 entries of
  \<^verbatim>\<open>frames[1024]\<close>, the frames in use are pairwise different and below the free-frame
  counter, and the device has at most 65536 frames, the range of a frame index.
\<close>

definition file_ok :: "'d env \<Rightarrow> 'd driver \<Rightarrow> nat \<Rightarrow> bool" where
  "file_ok env s fi =
     (fi < length (files s)
      \<and> length (frames (files s ! fi)) = 1024
      \<and> 0 \<le> nrFrames (files s ! fi) \<and> nrFrames (files s ! fi) \<le> 1024
      \<and> distinct (take (nat (nrFrames (files s ! fi))) (frames (files s ! fi)))
      \<and> (\<forall>x \<in> set (take (nat (nrFrames (files s ! fi))) (frames (files s ! fi))).
            uint x < freeFrameNr s)
      \<and> 0 \<le> freeFrameNr s \<and> BLOCK_BLOCK_SIZE env \<le> 65536)"

section \<open>Properties of the transfer register\<close>

lemma bit_below_bound:
  fixes w :: "32 word"
  assumes "unat w < 2 ^ k" and "bit w n"
  shows "n < k"
proof (rule ccontr)
  assume c: "\<not> n < k"
  from assms(1) have "take_bit k (unat w) = unat w"
    by (simp add: take_bit_nat_eq_self)
  then have "bit (unat w) n = bit (take_bit k (unat w)) n"
    by simp
  also have "\<dots> = False"
    using c by (simp add: bit_take_bit_iff)
  finally show False
    using assms(2) by (simp add: bit_unsigned_iff)
qed

lemma bit_word32_length: "bit (w :: 32 word) n \<Longrightarrow> n < 32"
  using bit_imp_le_length [of w n] by simp

lemma unpack_pack:
  assumes "unat ky1 < 2 ^ 8" and "unat fm1 < 2 ^ 16" and "unat rt1 < 2 ^ 8"
  shows "unpack (pack ky1 fm1 cs1 rt1) = (ky1, fm1, cs1, rt1)"
proof -
  have k: "\<And>n. bit ky1 n \<Longrightarrow> n < 8"
    using assms(1) bit_below_bound by blast
  have f: "\<And>n. bit fm1 n \<Longrightarrow> n < 16"
    using assms(2) bit_below_bound by blast
  have r: "\<And>n. bit rt1 n \<Longrightarrow> n < 8"
    using assms(3) bit_below_bound by blast
  have c: "\<And>n. bit cs1 n \<Longrightarrow> n < 32"
    by (rule bit_word32_length)
  have 1: "ucast (drop_bit 56 (pack ky1 fm1 cs1 rt1)) = ky1"
    unfolding pack_def
    by (rule bit_word_eqI) (auto simp add: bit_simps dest: k f r c)
  have 2: "ucast (drop_bit 48 (push_bit 8 (pack ky1 fm1 cs1 rt1))) = fm1"
    unfolding pack_def
    by (rule bit_word_eqI) (auto simp add: bit_simps dest: k f r c)
  have 3: "ucast (drop_bit 32 (push_bit 24 (pack ky1 fm1 cs1 rt1))) = cs1"
    unfolding pack_def
    by (rule bit_word_eqI) (auto simp add: bit_simps dest: k f r c)
  have 4: "ucast (drop_bit 56 (push_bit 56 (pack ky1 fm1 cs1 rt1))) = rt1"
    unfolding pack_def
    by (rule bit_word_eqI) (auto simp add: bit_simps dest: k f r c)
  show ?thesis
    by (simp add: unpack_def 1 2 3 4)
qed


text \<open>
  Claim C9 (register round trip). For an opcode that fits in 8 bits, a frame index that
  fits in 16 bits, any 32-bit checksum and a return code that fits in 8 bits, unpacking
  the packed register gives back exactly the four field values.
\<close>

theorem unpack_pack_roundtrip:
  assumes "unat ky1 < 2 ^ 8" and "unat fm1 < 2 ^ 16" and "unat rt1 < 2 ^ 8"
  shows "unpack (pack ky1 fm1 cs1 rt1) = (ky1, fm1, cs1, rt1)"
  using assms by (rule unpack_pack)

theorem unpack_pack_roundtrip_witness:
  "unat (3 :: 32 word) < 2 ^ 8 \<and> unat (0xABCD :: 32 word) < 2 ^ 16 \<and> unat (7 :: 32 word) < 2 ^ 8
   \<and> unpack (pack 3 0xABCD 0xDEADBEEF 7) = (3, 0xABCD, 0xDEADBEEF, 7)"
  using unpack_pack_roundtrip [of 3 "0xABCD" 7 "0xDEADBEEF"] by simp
section \<open>Properties of the protocol engine\<close>

lemma executeOpcode_acknowledged:
  assumes x: "exchange env (d, frame, ky1, fm1) = (reply, frame', d')"
    and a: "acknowledged env reply frame'"
  shows "executeOpcode env d frame ky1 fm1 = Some (d', frame')"
proof -
  obtain ky1' fm1' cs1' rt1' where u: "unpack reply = (ky1', fm1', cs1', rt1')"
    by (metis prod_cases4)
  have b: "block_io_bus env d
      (pack ky1 fm1 (if ky1 = BLOCK_OP_WRFRME env then compute_frame_checksum env frame else 0) 0) frame
      = (reply, frame', d')"
    using x by (simp add: exchange_def request_checksum_def)
  show ?thesis
    using b u a
    by (subst executeOpcode.simps) (simp add: executeOpcode_body_def acknowledged_def)
qed


lemma repeated_Suc:
  "repeated env opcode frameIndex (Suc n) st = once env opcode frameIndex (repeated env opcode frameIndex n st)"
  by (induction n arbitrary: st) simp_all






section \<open>Properties of the frame cache\<close>

lemma scan_here_post:
  assumes "scan_here frm xs iter previter = (i, pv)" and "iter < length xs"
  shows "iter \<le> i \<and> i < length xs
         \<and> (\<forall>j. iter \<le> j \<and> j < i \<longrightarrow> nFrm (xs ! j) \<noteq> frm)
         \<and> (Suc i < length xs \<longrightarrow> nFrm (xs ! i) = frm)
         \<and> pv = (if i = iter then previter else Some (i - 1))"
  using assms
proof (induction frm xs iter previter rule: scan_here.induct)
  case (1 frm xs iter previter)
  show ?case
  proof (cases "Suc iter < length xs \<and> nFrm (xs ! iter) \<noteq> frm")
    case True
    have "scan_here frm xs iter previter = scan_here frm xs (Suc iter) (Some iter)"
      using True by (simp add: scan_here.simps [of frm xs iter])
    then have "scan_here frm xs (Suc iter) (Some iter) = (i, pv)"
      using "1.prems"(1) by simp
    from "1.IH" [OF True this] True
    have IH: "Suc iter \<le> i" "i < length xs"
      "\<forall>j. Suc iter \<le> j \<and> j < i \<longrightarrow> nFrm (xs ! j) \<noteq> frm"
      "Suc i < length xs \<longrightarrow> nFrm (xs ! i) = frm"
      "pv = (if i = Suc iter then Some iter else Some (i - 1))"
      by auto
    have "\<forall>j. iter \<le> j \<and> j < i \<longrightarrow> nFrm (xs ! j) \<noteq> frm"
    proof (intro allI impI)
      fix j assume "iter \<le> j \<and> j < i"
      then show "nFrm (xs ! j) \<noteq> frm"
        using IH(3) True by (cases "j = iter") auto
    qed
    moreover have "pv = (if i = iter then previter else Some (i - 1))"
      using IH(1,5) by auto
    ultimately show ?thesis
      using IH by auto
  next
    case False
    have "scan_here frm xs iter previter = (iter, previter)"
      using False by (auto simp add: scan_here.simps [of frm xs iter])
    then have "i = iter" "pv = previter"
      using "1.prems"(1) by auto
    then show ?thesis
      using False "1.prems"(2) by auto
  qed
qed

lemma scan_next_post:
  assumes "scan_next frm xs iter previter = (i, pv)" and "iter < length xs"
  shows "iter \<le> i \<and> i < length xs
         \<and> (\<forall>j. iter < j \<and> j \<le> i \<longrightarrow> nFrm (xs ! j) \<noteq> frm)
         \<and> (Suc i < length xs \<longrightarrow> nFrm (xs ! Suc i) = frm)
         \<and> pv = (if i = iter then previter else Some (i - 1))"
  using assms
proof (induction frm xs iter previter rule: scan_next.induct)
  case (1 frm xs iter previter)
  show ?case
  proof (cases "Suc iter < length xs \<and> nFrm (xs ! Suc iter) \<noteq> frm")
    case True
    have "scan_next frm xs iter previter = scan_next frm xs (Suc iter) (Some iter)"
      using True by (simp add: scan_next.simps [of frm xs iter])
    then have "scan_next frm xs (Suc iter) (Some iter) = (i, pv)"
      using "1.prems"(1) by simp
    from "1.IH" [OF True this] True
    have IH: "Suc iter \<le> i" "i < length xs"
      "\<forall>j. Suc iter < j \<and> j \<le> i \<longrightarrow> nFrm (xs ! j) \<noteq> frm"
      "Suc i < length xs \<longrightarrow> nFrm (xs ! Suc i) = frm"
      "pv = (if i = Suc iter then Some iter else Some (i - 1))"
      by auto
    have "\<forall>j. iter < j \<and> j \<le> i \<longrightarrow> nFrm (xs ! j) \<noteq> frm"
    proof (intro allI impI)
      fix j assume "iter < j \<and> j \<le> i"
      then show "nFrm (xs ! j) \<noteq> frm"
        using IH(3) True by (cases "j = Suc iter") auto
    qed
    moreover have "pv = (if i = iter then previter else Some (i - 1))"
      using IH(1,5) by auto
    ultimately show ?thesis
      using IH by auto
  next
    case False
    have "scan_next frm xs iter previter = (iter, previter)"
      using False by (auto simp add: scan_next.simps [of frm xs iter])
    then have "i = iter" "pv = previter"
      using "1.prems"(1) by auto
    then show ?thesis
      using False "1.prems"(2) by auto
  qed
qed

lemma scan_get_post:
  assumes "iter < length xs"
  shows "iter \<le> scan_get frm xs iter \<and> scan_get frm xs iter < length xs
         \<and> (\<forall>j. iter \<le> j \<and> j < scan_get frm xs iter \<longrightarrow> nFrm (xs ! j) \<noteq> frm)
         \<and> (Suc (scan_get frm xs iter) < length xs \<longrightarrow> nFrm (xs ! scan_get frm xs iter) = frm)"
  using assms
proof (induction frm xs iter rule: scan_get.induct)
  case (1 frm xs iter)
  show ?case
  proof (cases "Suc iter < length xs \<and> nFrm (xs ! iter) \<noteq> frm")
    case True
    then have eq: "scan_get frm xs iter = scan_get frm xs (Suc iter)"
      by (simp add: scan_get.simps [of frm xs iter])
    from "1.IH" [OF True] True
    have IH: "Suc iter \<le> scan_get frm xs (Suc iter)" "scan_get frm xs (Suc iter) < length xs"
      "\<forall>j. Suc iter \<le> j \<and> j < scan_get frm xs (Suc iter) \<longrightarrow> nFrm (xs ! j) \<noteq> frm"
      "Suc (scan_get frm xs (Suc iter)) < length xs \<longrightarrow> nFrm (xs ! scan_get frm xs (Suc iter)) = frm"
      by auto
    have "\<forall>j. iter \<le> j \<and> j < scan_get frm xs (Suc iter) \<longrightarrow> nFrm (xs ! j) \<noteq> frm"
    proof (intro allI impI)
      fix j assume "iter \<le> j \<and> j < scan_get frm xs (Suc iter)"
      then show "nFrm (xs ! j) \<noteq> frm"
        using IH(3) True by (cases "j = iter") auto
    qed
    then show ?thesis
      using IH eq by auto
  next
    case False
    then have "scan_get frm xs iter = iter"
      by (auto simp add: scan_get.simps [of frm xs iter])
    then show ?thesis
      using False "1.prems" by auto
  qed
qed

lemma first_match_split:
  assumes "i < length xs" and "\<forall>j. j < i \<longrightarrow> nFrm (xs ! j) \<noteq> frm" and "nFrm (xs ! i) = frm"
  shows "takeWhile (\<lambda>n. nFrm n \<noteq> frm) xs = take i xs"
    and "dropWhile (\<lambda>n. nFrm n \<noteq> frm) xs = xs ! i # drop (Suc i) xs"
    and "find (\<lambda>n. nFrm n = frm) xs = Some (xs ! i)"
proof -
  show tw: "takeWhile (\<lambda>n. nFrm n \<noteq> frm) xs = take i xs"
    by (rule takeWhile_eq_take_P_nth) (use assms in auto)
  have "dropWhile (\<lambda>n. nFrm n \<noteq> frm) xs = drop i xs"
    using tw assms(1) by (simp add: dropWhile_eq_drop)
  then show "dropWhile (\<lambda>n. nFrm n \<noteq> frm) xs = xs ! i # drop (Suc i) xs"
    using assms(1) by (simp add: Cons_nth_drop_Suc)
  show "find (\<lambda>n. nFrm n = frm) xs = Some (xs ! i)"
    using assms by (auto simp add: find_Some_iff)
qed

lemma no_match_split:
  assumes "\<forall>j. j < length xs \<longrightarrow> nFrm (xs ! j) \<noteq> frm"
  shows "dropWhile (\<lambda>n. nFrm n \<noteq> frm) xs = []"
    and "find (\<lambda>n. nFrm n = frm) xs = None"
  using assms by (auto simp add: find_None_iff in_set_conv_nth)

lemma get_block_cache_find:
  assumes "cache g = Some c"
  shows "get_block_cache g block frm
           = Some (map_option nbuf (find (\<lambda>n. nFrm n = frm) (head c)), g)"
proof (cases "head c")
  case Nil
  then show ?thesis
    using assms by (simp add: get_block_cache_def)
next
  case (Cons h rest)
  show ?thesis
  proof (cases "nFrm h = frm")
    case True
    then show ?thesis
      using assms Cons by (simp add: get_block_cache_def)
  next
    case False
    define xs where "xs = h # rest"
    define i where "i = scan_get frm xs 0"
    have len: "0 < length xs"
      by (simp add: xs_def)
    from scan_get_post [OF len, of frm]
    have P: "i < length xs"
      "\<forall>j. j < i \<longrightarrow> nFrm (xs ! j) \<noteq> frm"
      "Suc i < length xs \<longrightarrow> nFrm (xs ! i) = frm"
      by (auto simp add: i_def)
    have unfold: "get_block_cache g block frm
        = (if nFrm (xs ! i) = frm then Some (Some (nbuf (xs ! i)), g) else Some (None, g))"
      using assms Cons False
      by (simp add: get_block_cache_def Let_def i_def xs_def)
    show ?thesis
    proof (cases "nFrm (xs ! i) = frm")
      case True
      from first_match_split(3) [OF P(1) P(2) True]
      show ?thesis
        using True Cons by (simp add: unfold xs_def)
    next
      case F: False
      then have last: "Suc i = length xs"
        using P by (metis Suc_lessI)
      have "\<forall>j. j < length xs \<longrightarrow> nFrm (xs ! j) \<noteq> frm"
        using P(2) F last by (metis less_Suc_eq)
      from no_match_split(2) [OF this]
      show ?thesis
        using F Cons by (simp add: unfold xs_def)
    qed
  qed
qed

lemma word32_of_nat_eq_iff:
  assumes "n < 2 ^ 32" and "m < 2 ^ 32"
  shows "((of_nat n :: 32 word) = of_nat m) = (n = m)"
proof
  assume "(of_nat n :: 32 word) = of_nat m"
  then have "unat (of_nat n :: 32 word) = unat (of_nat m :: 32 word)"
    by simp
  then show "n = m"
    using assms by (simp add: unat_of_nat)
qed simp

lemma node_overwrite:
  "(y :: ('b, 'k) CacheNode)\<lparr>nBlock := block, nFrm := frm, nbuf := buf\<rparr>
     = \<lparr>nBlock = block, nFrm = frm, nbuf = buf\<rparr>"
  by (cases y) simp

lemma upsert_found:
  assumes "i < length xs" and "\<forall>j. j < i \<longrightarrow> nFrm (xs ! j) \<noteq> frm" and "nFrm (xs ! i) = frm"
  shows "upsert cap xs block frm buf = (xs ! i)\<lparr>nbuf := buf\<rparr> # take i xs @ drop (Suc i) xs"
proof -
  have "xs \<noteq> []"
    using assms(1) by auto
  then show ?thesis
    using first_match_split(1,2) [OF assms] by (simp add: upsert_def)
qed

lemma upsert_absent:
  assumes "xs \<noteq> []" and "\<forall>j. j < length xs \<longrightarrow> nFrm (xs ! j) \<noteq> frm"
  shows "upsert cap xs block frm buf =
           (if length xs < cap then \<lparr>nBlock = block, nFrm = frm, nbuf = buf\<rparr> # xs
            else \<lparr>nBlock = block, nFrm = frm, nbuf = buf\<rparr> # butlast xs)"
  unfolding upsert_def no_match_split(1) [OF assms(2)] using assms(1) by simp

lemma length_upsert_found:
  assumes "i < length xs" and "\<forall>j. j < i \<longrightarrow> nFrm (xs ! j) \<noteq> frm" and "nFrm (xs ! i) = frm"
  shows "length (upsert cap xs block frm buf) = length xs"
  using assms(1) by (simp add: upsert_found [OF assms])

text \<open>
  On a cache whose capacity is at least two, \<^verbatim>\<open>put_block_cache\<close> is the \<open>upsert\<close> of the
  specification, and the counter stays the length of the chain.
\<close>

lemma put_block_cache_upsert:
  assumes c: "cache g = Some c" and ok: "cache_ok g"
  shows "put_block_cache g block frm buf =
           Some (0, g\<lparr>cache := Some (c\<lparr>head := upsert (unat (block_cache_max_items g)) (head c) block frm buf,
                                         currentSize := of_nat (length (upsert (unat (block_cache_max_items g))
                                                                     (head c) block frm buf))\<rparr>)\<rparr>)"
proof -
  define xs where "xs = head c"
  define M where "M = unat (block_cache_max_items g)"
  define n where "n = length xs"
  have hxs: "head c = xs"
    by (simp add: xs_def)
  have M2: "2 \<le> M" and nM: "n \<le> M" and cs: "currentSize c = of_nat n"
    using ok c by (simp_all add: cache_ok_def M_def n_def xs_def)
  have Mlt: "M < 2 ^ 32"
    unfolding M_def using unsigned_less [of "block_cache_max_items g"] by simp
  then have nlt: "n < 2 ^ 32"
    using nM by simp
  have cs0: "(currentSize c = 0) = (n = 0)"
    using word32_of_nat_eq_iff [OF nlt, of 0] by (simp add: cs)
  have cs1: "(currentSize c = 1) = (n = 1)"
    using word32_of_nat_eq_iff [OF nlt, of 1] by (simp add: cs)
  have csM: "(currentSize c = block_cache_max_items g) = (n = M)"
    using word32_of_nat_eq_iff [OF nlt Mlt] by (simp add: cs M_def)
  have grow: "currentSize c + 1 = of_nat (Suc n)"
    by (simp add: cs)
  let ?new = "\<lparr>nBlock = block, nFrm = frm, nbuf = buf\<rparr>"
  let ?goal = "\<lambda>l. put_block_cache g block frm buf =
      Some (0, g\<lparr>cache := Some (c\<lparr>head := l, currentSize := of_nat (length l)\<rparr>)\<rparr>)"
  have keep: "?goal U"
    if "put_block_cache g block frm buf = Some (0, g\<lparr>cache := Some (c\<lparr>head := l\<rparr>)\<rparr>)"
      and "length l = n" and "U = l" for l U
    using that cs by simp
  have more: "?goal U"
    if "put_block_cache g block frm buf
          = Some (0, g\<lparr>cache := Some (c\<lparr>head := l, currentSize := currentSize c + 1\<rparr>)\<rparr>)"
      and "length l = Suc n" and "U = l" for l U
    using that grow by simp
  have goal: "?goal (upsert M xs block frm buf)"
  proof (cases xs)
    case Nil
    then have "n = 0"
      by (simp add: n_def)
    have "put_block_cache g block frm buf
            = Some (0, g\<lparr>cache := Some (c\<lparr>head := [?new], currentSize := currentSize c + 1\<rparr>)\<rparr>)"
      using c cs0 \<open>n = 0\<close>
      by (simp add: Let_def put_block_cache_def createNewNode_def)
    then show ?thesis
      by (rule more) (simp_all add: \<open>n = 0\<close> Nil upsert_def)
  next
    case (Cons h rest)
    then have npos: "n \<noteq> 0" and hd: "head c = h # rest" and xs0: "xs ! 0 = h" and ne: "xs \<noteq> []"
      by (simp_all add: n_def xs_def)
    show ?thesis
    proof (cases "nFrm h = frm")
      case True
      have up: "upsert M xs block frm buf = h\<lparr>nbuf := buf\<rparr> # rest"
        using upsert_found [of 0 xs frm M block buf] True Cons by simp
      have "put_block_cache g block frm buf = Some (0, g\<lparr>cache := Some (c\<lparr>head := h\<lparr>nbuf := buf\<rparr> # rest\<rparr>)\<rparr>)"
        using c hd cs0 npos True by (simp add: Let_def put_block_cache_def)
      moreover have "length (h\<lparr>nbuf := buf\<rparr> # rest) = n"
        by (simp add: n_def Cons)
      ultimately show ?thesis
        using up by (rule keep)
    next
      case False
      show ?thesis
      proof (cases "n = 1")
        case True
        then have rest: "rest = []"
          using Cons by (simp add: n_def)
        have up: "upsert M xs block frm buf = ?new # xs"
          using upsert_absent [of xs frm M block buf] Cons rest False M2 by simp
        have "put_block_cache g block frm buf
                = Some (0, g\<lparr>cache := Some (c\<lparr>head := ?new # xs, currentSize := currentSize c + 1\<rparr>)\<rparr>)"
          using c hd cs0 cs1 npos True False
          by (simp add: Let_def put_block_cache_def createNewNode_def xs_def)
        then show ?thesis
          by (rule more) (simp_all add: up n_def)
      next
        case n1: False
        then have n2: "2 \<le> n"
          using npos by simp
        show ?thesis
        proof (cases "n = M")
          case True
          obtain i pv where sc: "scan_next frm xs 0 None = (i, pv)"
            by (cases "scan_next frm xs 0 None") auto
          have "0 < length xs"
            using ne by simp
          from scan_next_post [OF sc this]
          have P: "i < n" "\<forall>j. 0 < j \<and> j \<le> i \<longrightarrow> nFrm (xs ! j) \<noteq> frm"
            "Suc i < n \<longrightarrow> nFrm (xs ! Suc i) = frm"
            "pv = (if i = 0 then None else Some (i - 1))"
            by (auto simp add: n_def)
          have unfold: "put_block_cache g block frm buf =
              (if Suc i < n then
                 map_option (\<lambda>l. (0, g\<lparr>cache := Some (c\<lparr>head := l\<rparr>)\<rparr>))
                   (pop_after xs i (\<lambda>popVal. popVal\<lparr>nbuf := buf\<rparr>))
               else (case pv of None \<Rightarrow> None
                     | Some p \<Rightarrow> map_option (\<lambda>l. (0, g\<lparr>cache := Some (c\<lparr>head := l\<rparr>)\<rparr>))
                         (pop_after xs p (\<lambda>popVal. popVal\<lparr>nBlock := block, nFrm := frm, nbuf := buf\<rparr>))))"
            using c hxs Cons cs0 cs1 csM npos n1 True False sc
            by (simp add: Let_def put_block_cache_def n_def cong: if_cong option.case_cong)
          show ?thesis
          proof (cases "Suc i < n")
            case True
            have first: "\<forall>j. j < Suc i \<longrightarrow> nFrm (xs ! j) \<noteq> frm"
            proof (intro allI impI)
              fix j assume "j < Suc i"
              then show "nFrm (xs ! j) \<noteq> frm"
                using P(2) False xs0 by (cases "j = 0") auto
            qed
            have m: "nFrm (xs ! Suc i) = frm"
              using P(3) True by simp
            have Si: "Suc i < length xs"
              using True by (simp add: n_def)
            have up: "upsert M xs block frm buf
                = (xs ! Suc i)\<lparr>nbuf := buf\<rparr> # take (Suc i) xs @ drop (Suc (Suc i)) xs"
              by (rule upsert_found [OF Si first m])
            have "put_block_cache g block frm buf
                = Some (0, g\<lparr>cache := Some (c\<lparr>head := upsert M xs block frm buf\<rparr>)\<rparr>)"
              using True Si by (simp add: unfold pop_after_def unlink_after_def up)
            moreover have "length (upsert M xs block frm buf) = n"
              using length_upsert_found [OF Si first m] by (simp add: n_def)
            ultimately show ?thesis
              by (rule keep) simp
          next
            case F: False
            then have i: "Suc i = n"
              using P(1) by simp
            then have ipos: "i \<noteq> 0"
              using n2 by auto
            then have pv: "pv = Some (i - 1)"
              using P(4) by simp
            have none: "\<forall>j. j < length xs \<longrightarrow> nFrm (xs ! j) \<noteq> frm"
            proof (intro allI impI)
              fix j assume "j < length xs"
              then have "j \<le> i"
                using i by (simp add: n_def)
              then show "nFrm (xs ! j) \<noteq> frm"
                using P(2) False xs0 by (cases "j = 0") auto
            qed
            have up: "upsert M xs block frm buf = ?new # butlast xs"
              using upsert_absent [OF ne none, of M block buf] True by (simp add: n_def)
            have "i = length xs - 1"
              using i by (simp add: n_def)
            then have bl: "take i xs @ drop (Suc i) xs = butlast xs"
              using ne by (simp add: butlast_conv_take)
            have "pop_after xs (i - 1) (\<lambda>popVal. popVal\<lparr>nBlock := block, nFrm := frm, nbuf := buf\<rparr>)
                    = Some (?new # butlast xs)"
              using ipos P(1) bl by (simp add: pop_after_def unlink_after_def node_overwrite n_def)
            then have "put_block_cache g block frm buf
                = Some (0, g\<lparr>cache := Some (c\<lparr>head := upsert M xs block frm buf\<rparr>)\<rparr>)"
              using F pv by (simp add: unfold up)
            moreover have "length (upsert M xs block frm buf) = n"
              using ne by (simp add: up n_def)
            ultimately show ?thesis
              by (rule keep) simp
          qed
        next
          case nM': False
          then have lt: "n < M"
            using nM by simp
          obtain i pv where sc: "scan_here frm xs 0 None = (i, pv)"
            by (cases "scan_here frm xs 0 None") auto
          have "0 < length xs"
            using ne by simp
          from scan_here_post [OF sc this]
          have P: "i < n" "\<forall>j. j < i \<longrightarrow> nFrm (xs ! j) \<noteq> frm"
            "Suc i < n \<longrightarrow> nFrm (xs ! i) = frm"
            "pv = (if i = 0 then None else Some (i - 1))"
            by (auto simp add: n_def)
          have ipos: "i \<noteq> 0"
            using P(3) n2 False xs0 by (cases "i = 0") auto
          then have pv: "pv = Some (i - 1)"
            using P(4) by simp
          have unfold: "put_block_cache g block frm buf =
              (if Suc i < n \<or> nFrm (xs ! i) = frm then
                 map_option (\<lambda>l. (0, g\<lparr>cache := Some (c\<lparr>head := l\<rparr>)\<rparr>))
                   (pop_after xs (i - 1) (\<lambda>popVal. popVal\<lparr>nbuf := buf\<rparr>))
               else Some (0, g\<lparr>cache := Some (c\<lparr>head := ?new # xs, currentSize := currentSize c + 1\<rparr>)\<rparr>))"
            using c hxs Cons cs0 cs1 csM npos n1 nM' False sc pv
            by (simp add: Let_def put_block_cache_def createNewNode_def n_def
                cong: if_cong option.case_cong)
          show ?thesis
          proof (cases "nFrm (xs ! i) = frm")
            case True
            have il: "i < length xs"
              using P(1) by (simp add: n_def)
            have up: "upsert M xs block frm buf = (xs ! i)\<lparr>nbuf := buf\<rparr> # take i xs @ drop (Suc i) xs"
              by (rule upsert_found [OF il P(2) True])
            have "put_block_cache g block frm buf
                = Some (0, g\<lparr>cache := Some (c\<lparr>head := upsert M xs block frm buf\<rparr>)\<rparr>)"
              using True il ipos by (simp add: unfold pop_after_def unlink_after_def up)
            moreover have "length (upsert M xs block frm buf) = n"
              using length_upsert_found [OF il P(2) True] by (simp add: n_def)
            ultimately show ?thesis
              by (rule keep) simp
          next
            case F: False
            then have i: "Suc i = n"
              using P(1,3) by (metis Suc_lessI)
            have none: "\<forall>j. j < length xs \<longrightarrow> nFrm (xs ! j) \<noteq> frm"
            proof (intro allI impI)
              fix j assume "j < length xs"
              then have "j \<le> i"
                using i by (simp add: n_def)
              then show "nFrm (xs ! j) \<noteq> frm"
                using P(2) F by (cases "j = i") auto
            qed
            have up: "upsert M xs block frm buf = ?new # xs"
              using upsert_absent [OF ne none, of M block buf] lt by (simp add: n_def)
            have "put_block_cache g block frm buf
                = Some (0, g\<lparr>cache := Some (c\<lparr>head := ?new # xs, currentSize := currentSize c + 1\<rparr>)\<rparr>)"
              using F i by (simp add: unfold)
            then show ?thesis
              by (rule more) (simp_all add: up n_def)
          qed
        qed
      qed
    qed
  qed
  then show ?thesis
    by (simp add: xs_def M_def)
qed

lemma lookups_same:
  assumes "cache g = Some c"
  shows "lookups g ks = Some g"
proof (induction ks)
  case Nil
  show ?case by simp
next
  case (Cons k ks)
  obtain block frm where k: "k = (block, frm)"
    by (cases k) auto
  show ?case
    using Cons.IH by (simp add: k get_block_cache_find [OF assms])
qed

text \<open>
  Claim C7 (lookup is a pure read). On an initialised cache, \<^verbatim>\<open>get_block_cache\<close> returns
  the content of the first node of the chain whose frame index is the one asked for (the
  block index plays no part), or \<^verbatim>\<open>NULL\<close> when no node has it, and it leaves the globals
  of the cache as they were: the counter, the nodes, their contents and their order. So
  after any sequence of lookups the cache is the one before it, and every later
  \<^verbatim>\<open>put_block_cache\<close> finds the same recency order.
\<close>

theorem get_block_cache_pure_read:
  assumes "cache g = Some c"
  shows "get_block_cache g block frm
           = Some (map_option nbuf (find (\<lambda>n. nFrm n = frm) (head c)), g)
         \<and> lookups g ks = Some g"
  using get_block_cache_find [OF assms] lookups_same [OF assms] by simp

theorem get_block_cache_pure_read_witness:
  "get_block_cache two_entries 0 5 = Some (Some (frame_store zero_frame 0 [1]), two_entries)
   \<and> get_block_cache two_entries 0 6 = Some (None, two_entries)
   \<and> lookups two_entries [(0, 5), (0, 6), (1, 7)] = Some two_entries"
proof -
  have c: "cache two_entries
      = Some \<lparr>currentSize = 2,
               head = [\<lparr>nBlock = 0, nFrm = 7, nbuf = zero_frame\<rparr>,
                       \<lparr>nBlock = 0, nFrm = 5, nbuf = frame_store zero_frame 0 [1]\<rparr>]\<rparr>"
    by (simp add: two_entries_def)
  show ?thesis
    using get_block_cache_pure_read [OF c, of 0 5 "[(0, 5), (0, 6), (1, 7)]"]
      get_block_cache_pure_read [OF c, of 0 6 "[]"]
    by (simp del: lookups.simps)
qed

lemma find_append_cases:
  "find P (xs @ ys) = (case find P xs of None \<Rightarrow> find P ys | Some x \<Rightarrow> Some x)"
  by (induction xs) auto

lemma find_butlast_cases: "find P (butlast xs) = None \<or> find P (butlast xs) = find P xs"
  by (induction xs) auto

lemma find_upsert_same:
  "map_option nbuf (find (\<lambda>n. nFrm n = frm) (upsert cap xs block frm buf)) = Some buf"
proof (cases "dropWhile (\<lambda>n. nFrm n \<noteq> frm) xs")
  case Nil
  show ?thesis
    unfolding upsert_def Nil by simp
next
  case (Cons y rest)
  then have "nFrm y = frm"
    using hd_dropWhile [of "\<lambda>n. nFrm n \<noteq> frm" xs] by simp
  moreover have "xs \<noteq> []"
    using Cons by auto
  ultimately show ?thesis
    unfolding upsert_def Cons by simp
qed

lemma find_upsert_other:
  assumes "k \<noteq> frm"
  shows "find (\<lambda>n. nFrm n = k) (upsert cap xs block frm buf) = None
         \<or> find (\<lambda>n. nFrm n = k) (upsert cap xs block frm buf) = find (\<lambda>n. nFrm n = k) xs"
proof (cases "dropWhile (\<lambda>n. nFrm n \<noteq> frm) xs")
  case Nil
  show ?thesis
    unfolding upsert_def Nil
    using assms find_butlast_cases [of "\<lambda>n. nFrm n = k" xs] by auto
next
  case (Cons y rest)
  then have y: "nFrm y = frm"
    using hd_dropWhile [of "\<lambda>n. nFrm n \<noteq> frm" xs] by simp
  have ne: "xs \<noteq> []"
    using Cons by auto
  have "xs = takeWhile (\<lambda>n. nFrm n \<noteq> frm) xs @ y # rest"
    using takeWhile_dropWhile_id [of "\<lambda>n. nFrm n \<noteq> frm" xs] Cons by simp
  then have "find (\<lambda>n. nFrm n = k) xs
      = find (\<lambda>n. nFrm n = k) (takeWhile (\<lambda>n. nFrm n \<noteq> frm) xs @ y # rest)"
    by simp
  also have "\<dots> = find (\<lambda>n. nFrm n = k) (takeWhile (\<lambda>n. nFrm n \<noteq> frm) xs @ rest)"
    using y assms by (simp add: find_append_cases split: option.splits)
  finally show ?thesis
    unfolding upsert_def Cons using ne y assms by simp
qed

lemma length_upsert_le:
  assumes "length xs \<le> cap" and "1 \<le> cap"
  shows "length (upsert cap xs block frm buf) \<le> cap"
proof (cases "dropWhile (\<lambda>n. nFrm n \<noteq> frm) xs")
  case Nil
  show ?thesis
    unfolding upsert_def Nil using assms by auto
next
  case (Cons y rest)
  have "length xs = length (takeWhile (\<lambda>n. nFrm n \<noteq> frm) xs @ y # rest)"
    using takeWhile_dropWhile_id [of "\<lambda>n. nFrm n \<noteq> frm" xs] Cons by simp
  then show ?thesis
    unfolding upsert_def Cons using assms by auto
qed

lemma put_block_cache_ok:
  assumes "cache_ok g"
  shows "\<exists>g'. put_block_cache g block frm buf = Some (0, g') \<and> cache_ok g'
           \<and> block_cache_max_items g' = block_cache_max_items g
           \<and> cached g' frm = Some buf
           \<and> (\<forall>k. k \<noteq> frm \<longrightarrow> cached g' k = None \<or> cached g' k = cached g k)"
proof -
  obtain c where c: "cache g = Some c"
    using assms by (auto simp add: cache_ok_def split: option.splits)
  define M where "M = unat (block_cache_max_items g)"
  define l where "l = upsert M (head c) block frm buf"
  define g' where "g' = g\<lparr>cache := Some (c\<lparr>head := l, currentSize := of_nat (length l)\<rparr>)\<rparr>"
  have put: "put_block_cache g block frm buf = Some (0, g')"
    using put_block_cache_upsert [OF c assms] by (simp add: g'_def l_def M_def)
  have M: "2 \<le> M" "length (head c) \<le> M"
    using assms c by (simp_all add: cache_ok_def M_def)
  then have "length l \<le> M"
    unfolding l_def by (intro length_upsert_le) auto
  then have ok: "cache_ok g'"
    using M by (simp add: cache_ok_def g'_def M_def)
  have same: "cached g' frm = Some buf"
    using find_upsert_same [of frm M "head c" block buf] by (simp add: cached_def g'_def l_def)
  have other: "\<forall>k. k \<noteq> frm \<longrightarrow> cached g' k = None \<or> cached g' k = cached g k"
  proof (intro allI impI)
    fix k assume "k \<noteq> frm"
    from find_upsert_other [OF this, of M "head c" block buf]
    show "cached g' k = None \<or> cached g' k = cached g k"
      using c by (auto simp add: cached_def g'_def l_def)
  qed
  show ?thesis
    using put ok same other by (auto simp add: g'_def)
qed

lemma get_block_cache_cached:
  assumes "cache_ok g"
  shows "get_block_cache g block frm = Some (cached g frm, g)"
proof -
  obtain c where c: "cache g = Some c"
    using assms by (auto simp add: cache_ok_def split: option.splits)
  show ?thesis
    using get_block_cache_find [OF c] c by (simp add: cached_def)
qed

lemma init_block_cache_ok:
  assumes "2 \<le> unat (block_cache_max_items g)"
  shows "cache_ok (snd (init_block_cache g))"
  using assms by (simp add: init_block_cache_def cache_ok_def)

lemma put_block_cache_capacity:
  assumes "cache_ok g" and "put_block_cache g block frm buf = Some (r, g')"
  shows "\<exists>c'. cache g' = Some c' \<and> length (head c') \<le> unat (block_cache_max_items g')
           \<and> currentSize c' = of_nat (length (head c'))"
proof -
  from put_block_cache_ok [OF assms(1), of block frm buf] assms(2)
  have "cache_ok g'"
    by auto
  then show ?thesis
    by (auto simp add: cache_ok_def split: option.splits)
qed

lemma put_block_cache_evicts_tail:
  assumes c: "cache g = Some c" and ok: "cache_ok g"
    and full: "length (head c) = unat (block_cache_max_items g)"
    and absent: "\<forall>n \<in> set (head c). nFrm n \<noteq> frm"
  shows "put_block_cache g block frm buf =
           Some (0, g\<lparr>cache := Some (c\<lparr>head := \<lparr>nBlock = block, nFrm = frm, nbuf = buf\<rparr>
                                                    # butlast (head c)\<rparr>)\<rparr>)"
proof -
  have ne: "head c \<noteq> []"
    using ok c full by (auto simp add: cache_ok_def)
  have "\<forall>j. j < length (head c) \<longrightarrow> nFrm (head c ! j) \<noteq> frm"
    using absent by simp
  from upsert_absent [OF ne this, of "unat (block_cache_max_items g)" block buf]
  have up: "upsert (unat (block_cache_max_items g)) (head c) block frm buf
      = \<lparr>nBlock = block, nFrm = frm, nbuf = buf\<rparr> # butlast (head c)"
    using full by simp
  have "currentSize c = of_nat (length (head c))"
    using ok c by (simp add: cache_ok_def)
  then have "c\<lparr>head := \<lparr>nBlock = block, nFrm = frm, nbuf = buf\<rparr> # butlast (head c),
               currentSize := of_nat (length (\<lparr>nBlock = block, nFrm = frm, nbuf = buf\<rparr> # butlast (head c)))\<rparr>
     = c\<lparr>head := \<lparr>nBlock = block, nFrm = frm, nbuf = buf\<rparr> # butlast (head c)\<rparr>"
    using ne by simp
  then show ?thesis
    using put_block_cache_upsert [OF c ok, of block frm buf] by (simp only: up)
qed

text \<open>
  Claim C2 (capacity bound), at the capacity 1: after \<^verbatim>\<open>set_block_cache_size(1)\<close>,
  \<^verbatim>\<open>init_block_cache()\<close> and the puts of the frames 100 and 101, the cache holds two
  entries, because the branch \<^verbatim>\<open>currentSize == 1\<close> comes before the test against
  \<^verbatim>\<open>block_cache_max_items\<close>. (For a capacity of at least two the bound holds:
  \<open>put_block_cache_capacity\<close>.)
\<close>

theorem capacity_one_holds_two_entries:
  "(case put_block_cache capacity_one 0 100 zero_frame of
      None \<Rightarrow> None
    | Some (r, g) \<Rightarrow>
        (case put_block_cache g 0 101 zero_frame of
           None \<Rightarrow> None
         | Some (r', g') \<Rightarrow>
             map_option (\<lambda>c. (block_cache_max_items g', currentSize c, map nFrm (head c))) (cache g')))
   = Some (1, 2, [101, 100])"
  by (simp add: capacity_one_def set_block_cache_size_def init_block_cache_def
      put_block_cache_def createNewNode_def Let_def)

text \<open>
  Claim C6 (eviction policy), at the capacity 1: the cache is at its capacity with the
  frame 100, and the put of the frame 101 evicts nothing; the tail stays and the cache
  grows to two entries. (For a capacity of at least two the tail is replaced and moves
  to the front: \<open>put_block_cache_evicts_tail\<close>.)
\<close>

theorem full_of_one_evicts_nothing:
  "put_block_cache full_of_one 0 101 (frame_store zero_frame 0 [1])
     = Some (0, \<lparr>block_cache_max_items = 1,
                 cache = Some \<lparr>currentSize = 2,
                               head = [\<lparr>nBlock = 0, nFrm = 101, nbuf = frame_store zero_frame 0 [1]\<rparr>,
                                       \<lparr>nBlock = 0, nFrm = 100, nbuf = zero_frame\<rparr>]\<rparr>\<rparr>)"
  by (simp add: full_of_one_def put_block_cache_def createNewNode_def Let_def)


section \<open>Properties of the file table\<close>

subsection \<open>Closing a handle\<close>

text \<open>
  Claim C3 as stated, at a handle that is already closed: \<^verbatim>\<open>block_close\<close> returns
  \<open>- 1\<close>, the failure value of the driver, and leaves the state as it is.
\<close>

theorem block_close_closed_handle_fails:
  "block_close one_closed 0 = Some (- 1, one_closed)"
  by (simp add: block_close_def one_closed_def one_open_def)

text \<open>
  Claim C3, amended. While the device is on and \<open>fd\<close> is an index of the handle table:
  on a closed handle \<^verbatim>\<open>block_close\<close> fails with \<open>- 1\<close> and changes nothing; on an open
  handle it returns 0 and leaves the handle closed, with the cursor \<open>- 1\<close> and no file.
\<close>

theorem block_close_result:
  assumes "isOn s \<noteq> 0" and "0 \<le> fd" and "nat fd < length (handles s)"
  shows "block_close s fd =
           (if status (handles s ! nat fd) = CLOSED then Some (- 1, s)
            else Some (0, s\<lparr>handles := (handles s)
                              [nat fd := \<lparr>file_p = None, loc = - 1, status = CLOSED\<rparr>]\<rparr>))"
proof -
  have "closeFile h = \<lparr>file_p = None, loc = - 1, status = CLOSED\<rparr>" for h
    by (cases h) (simp add: closeFile_def)
  then show ?thesis
    using assms by (simp add: block_close_def)
qed

theorem block_close_result_witness:
  "block_close one_open 0 = Some (0, one_closed) \<and> block_close one_closed 0 = Some (- 1, one_closed)"
  using block_close_result [of one_open 0] block_close_result [of one_closed 0]
  by (simp add: one_closed_def one_open_def)


subsection \<open>Opening a file\<close>

lemma open_scan_post:
  assumes "\<forall>j. int j < nb \<longrightarrow> j < length fs \<and> strlen path \<le> length (name (fs ! j))"
  shows "\<exists>found j. open_scan fs nb path i = Some (found, j) \<and> i \<le> j
           \<and> (\<forall>k. i \<le> k \<and> k < j \<longrightarrow> \<not> name_matches path (fs ! k))
           \<and> (if found then int j < nb \<and> name_matches path (fs ! j) else \<not> int j < nb)"
  using assms
proof (induction fs nb path i rule: open_scan.induct)
  case (1 fs nb path i)
  show ?case
  proof (cases "int i < nb")
    case False
    then have "open_scan fs nb path i = Some (False, i)"
      by (simp add: open_scan.simps [of fs nb path i])
    then show ?thesis
      using False by (intro exI [of _ False] exI [of _ i]) auto
  next
    case True
    then have ok: "i < length fs" "strlen path \<le> length (name (fs ! i))"
      using "1.prems" by auto
    show ?thesis
    proof (cases "name_matches path (fs ! i)")
      case m: True
      then have "open_scan fs nb path i = Some (True, i)"
        using True ok by (simp add: open_scan.simps [of fs nb path i] name_matches_def memcmp_name_def)
      then show ?thesis
        using True m by (intro exI [of _ True] exI [of _ i]) auto
    next
      case m: False
      then have neq: "take (strlen path) (name (fs ! i)) \<noteq> take (strlen path) path"
        by (simp add: name_matches_def)
      have cmp: "memcmp_name fs i path (strlen path) = Some False"
        using ok neq by (simp add: memcmp_name_def)
      have step: "open_scan fs nb path i = open_scan fs nb path (Suc i)"
        using True cmp by (simp add: open_scan.simps [of fs nb path i])
      have "\<exists>found j. open_scan fs nb path (Suc i) = Some (found, j) \<and> Suc i \<le> j
           \<and> (\<forall>k. Suc i \<le> k \<and> k < j \<longrightarrow> \<not> name_matches path (fs ! k))
           \<and> (if found then int j < nb \<and> name_matches path (fs ! j) else \<not> int j < nb)"
        using True cmp "1.prems" by (intro "1.IH" [of False]) simp_all
      then obtain found j where IH: "open_scan fs nb path (Suc i) = Some (found, j)" "Suc i \<le> j"
        "\<forall>k. Suc i \<le> k \<and> k < j \<longrightarrow> \<not> name_matches path (fs ! k)"
        "if found then int j < nb \<and> name_matches path (fs ! j) else \<not> int j < nb"
        by blast
      have "\<forall>k. i \<le> k \<and> k < j \<longrightarrow> \<not> name_matches path (fs ! k)"
      proof (intro allI impI)
        fix k assume "i \<le> k \<and> k < j"
        then show "\<not> name_matches path (fs ! k)"
          using IH(3) m by (cases "k = i") auto
      qed
      then show ?thesis
        using IH(1,2,4) step
        by (intro exI [of _ found] exI [of _ j]) auto
    qed
  qed
qed

text \<open>
  Within \<^verbatim>\<open>name\<close>, that is for a path of at most 128 bytes, while the device is on, with a
  free entry in the file table and in the handle table (of at most 32768 entries, so that
  the handle fits \<^verbatim>\<open>int16_t\<close>): \<^verbatim>\<open>block_open\<close> returns the handle \<^verbatim>\<open>nbHandles\<close>, which is not
  negative, and that handle is open at cursor 0 on a file \<open>i\<close>. If a stored name matches
  the path on the bytes of the path, \<open>i\<close> is the first such file and the files are
  unchanged; otherwise \<open>i\<close> is a new file at \<^verbatim>\<open>nbFiles\<close> with the path as its name, size 0
  and no frames.
\<close>

lemma block_open_result:
  assumes on: "isOn s \<noteq> 0"
    and path: "strlen path \<le> 128"
    and names: "\<forall>f \<in> set (files s). length (name f) = 128"
    and nf: "0 \<le> nbFiles s" "nat (nbFiles s) < length (files s)"
    and nh: "0 \<le> nbHandles s" "nat (nbHandles s) < length (handles s)"
      "length (handles s) \<le> 32768"
  shows "\<exists>i s'. block_open s path = Some (nbHandles s, s')
           \<and> 0 \<le> nbHandles s
           \<and> handles s' = (handles s)[nat (nbHandles s) := \<lparr>file_p = Some i, loc = 0, status = OPEN\<rparr>]
           \<and> nbHandles s' = nbHandles s + 1
           \<and> (if \<exists>j < nat (nbFiles s). name_matches path (files s ! j)
               then i < nat (nbFiles s) \<and> name_matches path (files s ! i)
                    \<and> (\<forall>k < i. \<not> name_matches path (files s ! k))
                    \<and> files s' = files s \<and> nbFiles s' = nbFiles s
               else i = nat (nbFiles s) \<and> nbFiles s' = nbFiles s + 1
                    \<and> files s' = (files s)[i := (files s ! i)
                          \<lparr>name := take (strlen path) path @ drop (strlen path) (name (files s ! i)),
                           size_f := 0, nrFrames := 0\<rparr>])
           \<and> isOn s' = isOn s \<and> freeFrameNr s' = freeFrameNr s
           \<and> cache_g s' = cache_g s \<and> device s' = device s"
proof -
  have pre: "\<forall>j. int j < nbFiles s \<longrightarrow> j < length (files s) \<and> strlen path \<le> length (name (files s ! j))"
    using names nf path by auto
  from open_scan_post [OF pre, of 0]
  obtain found j where sc: "open_scan (files s) (nbFiles s) path 0 = Some (found, j)"
    and before: "\<forall>k. k < j \<longrightarrow> \<not> name_matches path (files s ! k)"
    and fin: "if found then int j < nbFiles s \<and> name_matches path (files s ! j) else \<not> int j < nbFiles s"
    by auto
  have fd: "sint (word_of_int (nbHandles s) :: 16 word) = nbHandles s"
  proof -
    have "nbHandles s < 2 ^ 15"
      using nh by simp
    then show ?thesis
      using nh(1) by (simp add: sint_sbintrunc' signed_take_bit_int_eq_self)
  qed
  have opn: "snd (openFile h i) = \<lparr>file_p = Some i, loc = 0, status = OPEN\<rparr>" for h i
    by (cases h) (simp add: openFile_def)
  show ?thesis
  proof (cases found)
    case True
    then have j: "int j < nbFiles s" "name_matches path (files s ! j)"
      using fin by auto
    then have ex: "\<exists>j < nat (nbFiles s). name_matches path (files s ! j)"
      by (intro exI [of _ j]) auto
    define s' where "s' = s\<lparr>handles := (handles s)[nat (nbHandles s) := \<lparr>file_p = Some j, loc = 0, status = OPEN\<rparr>],
              nbHandles := nbHandles s + 1\<rparr>"
    have "block_open s path = Some (nbHandles s, s')"
      using on sc True nh fd by (simp add: block_open_def opn s'_def)
    moreover have "j < nat (nbFiles s)" "\<forall>k < j. \<not> name_matches path (files s ! k)"
      using j before by auto
    ultimately show ?thesis
      using ex j(2) nh(1)
      by (intro exI [of _ j] exI [of _ s']) (simp add: s'_def)
  next
    case False
    then have j: "\<not> int j < nbFiles s"
      using fin by simp
    have nex: "\<not> (\<exists>k < nat (nbFiles s). name_matches path (files s ! k))"
      using before j by auto
    have len: "strlen path \<le> length (name (files s ! nat (nbFiles s)))"
      using names nf path by auto
    define f where "f = (files s ! nat (nbFiles s))
        \<lparr>name := take (strlen path) path @ drop (strlen path) (name (files s ! nat (nbFiles s))),
         size_f := 0, nrFrames := 0\<rparr>"
    have ln: "length (take (strlen path) path) = strlen path"
      by (simp add: strlen_def length_takeWhile_le)
    have cr: "createNewFile path (files s) (nat (nbFiles s)) = Some (0, (files s)[nat (nbFiles s) := f])"
      using len nf by (simp add: createNewFile_def copy_name_def f_def ln del: length_take)
    define s' where "s' = s\<lparr>files := (files s)[nat (nbFiles s) := f], nbFiles := nbFiles s + 1,
              handles := (handles s)[nat (nbHandles s) := \<lparr>file_p = Some (nat (nbFiles s)), loc = 0, status = OPEN\<rparr>],
              nbHandles := nbHandles s + 1\<rparr>"
    have "block_open s path = Some (nbHandles s, s')"
      using on sc False nf nh fd cr by (simp add: block_open_def opn s'_def)
    then show ?thesis
      using nex nh(1)
      by (intro exI [of _ "nat (nbFiles s)"] exI [of _ s']) (simp add: s'_def f_def)
  qed
qed

lemma block_open_result_witness:
  "(\<exists>i s'. block_open one_open [98] = Some (1, s')
      \<and> handles s' = (handles one_open)[1 := \<lparr>file_p = Some i, loc = 0, status = OPEN\<rparr>]
      \<and> i = 1 \<and> nbFiles s' = 2 \<and> size_f (files s' ! 1) = 0 \<and> nrFrames (files s' ! 1) = 0)"
proof -
  have a: "isOn one_open \<noteq> 0" "strlen [98] \<le> 128" "\<forall>f \<in> set (files one_open). length (name f) = 128"
    "0 \<le> nbFiles one_open" "nat (nbFiles one_open) < length (files one_open)"
    "0 \<le> nbHandles one_open" "nat (nbHandles one_open) < length (handles one_open)"
    "length (handles one_open) \<le> 32768"
    by (simp_all add: one_open_def strlen_def file_a_def zero_file_def)
  have nm: "\<not> (\<exists>j < nat (nbFiles one_open). name_matches [98] (files one_open ! j))"
    by (simp add: one_open_def name_matches_def strlen_def file_a_def zero_file_def)
  from block_open_result [OF a]
  obtain i s' where r: "block_open one_open [98] = Some (nbHandles one_open, s')"
    "handles s' = (handles one_open)[nat (nbHandles one_open) := \<lparr>file_p = Some i, loc = 0, status = OPEN\<rparr>]"
    "if \<exists>j < nat (nbFiles one_open). name_matches [98] (files one_open ! j)
     then i < nat (nbFiles one_open) \<and> name_matches [98] (files one_open ! i)
          \<and> (\<forall>k < i. \<not> name_matches [98] (files one_open ! k))
          \<and> files s' = files one_open \<and> nbFiles s' = nbFiles one_open
     else i = nat (nbFiles one_open) \<and> nbFiles s' = nbFiles one_open + 1
          \<and> files s' = (files one_open)[i := (files one_open ! i)
                \<lparr>name := take (strlen [98]) [98] @ drop (strlen [98]) (name (files one_open ! i)),
                 size_f := 0, nrFrames := 0\<rparr>]"
    by blast
  have e: "i = nat (nbFiles one_open)" "nbFiles s' = nbFiles one_open + 1"
    "files s' = (files one_open)[i := (files one_open ! i)
                \<lparr>name := take (strlen [98]) [98] @ drop (strlen [98]) (name (files one_open ! i)),
                 size_f := 0, nrFrames := 0\<rparr>]"
    using r(3) nm by (simp_all only: if_False)
  have "i = 1" "nbFiles s' = 2" "size_f (files s' ! 1) = 0" "nrFrames (files s' ! 1) = 0"
    using e by (simp_all add: one_open_def)
  moreover have "block_open one_open [98] = Some (1, s')"
    "handles s' = (handles one_open)[1 := \<lparr>file_p = Some i, loc = 0, status = OPEN\<rparr>]"
    using r(1,2) by (simp_all add: one_open_def)
  ultimately show ?thesis
    by blast
qed


lemma length_le16s: "length (concat (map le16 frs)) = 2 * length frs"
  by (induction frs) (simp_all add: le16_def)

lemma length_file_image:
  "length (file_image f) = length (name f) + 2 * length (frames f) + 8"
  by (simp add: file_image_def length_le16s le32_def Let_def)

lemma length_files_image:
  assumes "\<forall>f \<in> set fs. length (name f) = 128 \<and> length (frames f) = 1024"
  shows "length (files_image fs) = 2184 * length fs"
  using assms by (induction fs) (simp_all add: files_image_def length_file_image)

lemma strlen_no_zero:
  assumes "\<forall>c \<in> set s. c \<noteq> 0"
  shows "strlen s = length s"
  using assms by (induction s) (simp_all add: strlen_def)


lemma le16s_zero: "concat (replicate n (le16 0)) = replicate (2 * n) 0"
  by (induction n) (simp_all add: le16_def)

lemma of_le16s_zero: "of_le16s (replicate (2 * n) 0) = replicate n 0"
  by (induction n) simp_all

lemma file_image_zero: "file_image zero_file = replicate 2184 0"
proof -
  have r4: "[0, 0, 0, 0] = replicate 4 (0 :: 8 word)"
    by (simp add: numeral_eq_Suc)
  have "replicate 128 (0 :: 8 word) @ replicate 4 0 @ replicate 2048 0 @ replicate 4 0 = replicate 2184 0"
    by (simp add: replicate_add [symmetric])
  then show ?thesis
    by (simp add: file_image_def zero_file_def le32_def le16s_zero r4 del: replicate_Suc)
qed

lemma of_le_zero: "of_le (replicate n 0) = 0"
  by (induction n) simp_all

lemma file_of_image_zero: "file_of_image (replicate 2184 0) = zero_file"
  using of_le16s_zero [of 1024]
  by (simp add: file_of_image_def zero_file_def of_le32_def of_le_zero)

text \<open>
  A path of 129 bytes on the driver that holds the file \<open>a\<close>: the comparison with the
  stored name differs at its second byte, and the copy into the new entry runs one byte
  past \<^verbatim>\<open>name\<close>, into \<^verbatim>\<open>size\<close>, which \<^verbatim>\<open>createNewFile\<close> then sets to 0. The call returns the
  handle 1 on a new file of size 0 with no frames, whose name is the first 128 bytes of
  the path.
\<close>

lemma block_open_long_path_creates:
  "block_open one_open (replicate 129 97)
     = Some (1, one_open
          \<lparr>files := [file_a, \<lparr>name = replicate 128 97, size_f = 0, frames = replicate 1024 0, nrFrames = 0\<rparr>,
                      zero_file, zero_file],
           nbFiles := 2,
           handles := [\<lparr>file_p = Some 0, loc = 0, status = OPEN\<rparr>,
                        \<lparr>file_p = Some 1, loc = 0, status = OPEN\<rparr>, zero_handle, zero_handle],
           nbHandles := 2\<rparr>)"
proof -
  let ?path = "replicate 129 (97 :: 8 word)"
  let ?fs = "[file_a, zero_file, zero_file, zero_file]"
  have n: "strlen ?path = 129"
    by (simp add: strlen_no_zero)
  have wf: "\<forall>f \<in> set ?fs. length (name f) = 128 \<and> length (frames f) = 1024"
    by (simp add: file_a_def zero_file_def)
  have len: "length (files_image ?fs) = 8736"
    using length_files_image [OF wf] by simp
  have im0: "take 128 (files_image ?fs) = 97 # replicate 127 0"
    by (simp add: files_image_def file_image_def file_a_def zero_file_def)
  have ne: "take 129 (files_image ?fs) \<noteq> take 129 ?path"
  proof
    assume "take 129 (files_image ?fs) = take 129 ?path"
    then have "take 128 (take 129 (files_image ?fs)) = take 128 (take 129 ?path)"
      by simp
    then have "97 # replicate 127 (0 :: 8 word) = replicate 128 97"
      using im0 by simp
    then have "(97 # replicate 127 (0 :: 8 word)) ! 1 = replicate 128 97 ! 1"
      by simp
    then show False
      by simp
  qed
  have ne2: "take 129 (files_image ?fs) \<noteq> replicate 129 97"
    using ne by simp
  have nm0: "length (name file_a) = 128"
    by (simp add: file_a_def zero_file_def)
  have cmp: "memcmp_name ?fs 0 ?path 129 = Some False"
    by (simp add: memcmp_name_def len Let_def nm0 ne2)
  have sc: "open_scan ?fs 1 ?path 0 = Some (False, 1)"
    by (simp add: open_scan.simps [of _ _ _ 0] open_scan.simps [of _ _ _ "Suc 0"] n cmp)
  have im: "files_image [zero_file, zero_file, zero_file] = replicate 6552 0"
    by (simp add: files_image_def file_image_zero replicate_add [symmetric])
  have dec: "files_of_image (replicate 129 97 @ replicate 6423 0)
      = [\<lparr>name = replicate 128 97, size_f = 97, frames = replicate 1024 0, nrFrames = 0\<rparr>,
         zero_file, zero_file]"
  proof -
    have r: "replicate 6423 (0 :: 8 word) = replicate 2055 0 @ replicate 2184 0 @ replicate 2184 0"
      by (simp add: replicate_add [symmetric])
    have l: "length (replicate 129 (97 :: 8 word) @ replicate 6423 0) div 2184 = 3"
      by simp
    have up: "[0 ..< 3] = [0, 1, 2]"
      by (simp add: upt_rec)
    have r1: "take 2184 (drop 2184 (replicate 129 (97 :: 8 word) @ replicate 6423 0)) = replicate 2184 0"
      by simp
    have r2: "take 2184 (drop 4368 (replicate 129 (97 :: 8 word) @ replicate 6423 0)) = replicate 2184 0"
      by simp
    have f0: "file_of_image (replicate 129 97 @ replicate 2055 0)
        = \<lparr>name = replicate 128 97, size_f = 97, frames = replicate 1024 0, nrFrames = 0\<rparr>"
      using of_le16s_zero [of 1024] by (simp add: file_of_image_def of_le32_def of_le_zero)
    show ?thesis
      unfolding files_of_image_def l up by (simp add: r1 r2 f0 file_of_image_zero)
  qed
  have cp: "copy_name ?fs 1 ?path
      = Some [file_a, \<lparr>name = replicate 128 97, size_f = 97, frames = replicate 1024 0, nrFrames = 0\<rparr>,
              zero_file, zero_file]"
  proof -
    have nmz: "length (name zero_file) = 128"
      by (simp add: zero_file_def)
    show ?thesis
      by (simp add: copy_name_def im dec nmz)
  qed
  have cr: "createNewFile ?path ?fs 1
      = Some (0, [file_a, \<lparr>name = replicate 128 97, size_f = 0, frames = replicate 1024 0, nrFrames = 0\<rparr>,
              zero_file, zero_file])"
    using cp by (simp add: createNewFile_def n)
  show ?thesis
    using sc cr by (simp add: block_open_def one_open_def openFile_def zero_handle_def)
qed


subsection \<open>Frame allocation\<close>

lemma unat_word16_succ:
  fixes nr :: "16 word"
  assumes "unat nr < 65535"
  shows "unat (nr + 1) = Suc (unat nr)"
  using assms by (simp add: unat_word_ariths)

lemma allocate_loop_post:
  assumes "allocate_loop bsize target frs free nr = Some (r, frs', free', nr')"
    and "length frs \<le> 65535"
  shows "take (unat nr) frs' = take (unat nr) frs \<and> length frs' = length frs
         \<and> (r = - 1 \<and> free < free' \<and> bsize < free'
              \<or> r = 0 \<and> nr' = word_of_int (int (unat nr')) \<and> (free' = free \<or> free' \<le> bsize))"
  using assms
proof (induction bsize target frs free nr rule: allocate_loop.induct)
  case (1 bsize target frs free nr)
  show ?case
  proof (cases "target > int (unat nr) * 4096")
    case False
    then have "allocate_loop bsize target frs free nr = Some (0, frs, free, nr)"
      by (simp add: allocate_loop.simps [of bsize target frs free nr])
    then show ?thesis
      using "1.prems"(1) by simp
  next
    case True
    have inb: "unat nr < length frs"
      using True "1.prems"(1)
      by (simp add: allocate_loop.simps [of bsize target frs free nr] split: if_splits)
    have fits: "\<not> 2 ^ 31 \<le> free + 1"
      using True inb "1.prems"(1)
      by (simp add: allocate_loop.simps [of bsize target frs free nr] split: if_splits)
    show ?thesis
    proof (cases "free + 1 > bsize")
      case over: True
      then have "allocate_loop bsize target frs free nr
          = Some (- 1, frs[unat nr := word_of_int free], free + 1, nr + 1)"
        using True inb fits by (simp add: allocate_loop.simps [of bsize target frs free nr])
      then show ?thesis
        using "1.prems"(1) over by auto
    next
      case under: False
      then have step: "allocate_loop bsize target frs free nr
          = allocate_loop bsize target (frs[unat nr := word_of_int free]) (free + 1) (nr + 1)"
        using True inb fits by (simp add: allocate_loop.simps [of bsize target frs free nr])
      have nle: "\<not> length frs \<le> unat nr"
        using inb by simp
      have IH: "take (unat (nr + 1)) frs' = take (unat (nr + 1)) (frs[unat nr := word_of_int free])
          \<and> length frs' = length (frs[unat nr := word_of_int free])
          \<and> (r = - 1 \<and> free + 1 < free' \<and> bsize < free'
              \<or> r = 0 \<and> nr' = word_of_int (int (unat nr')) \<and> (free' = free + 1 \<or> free' \<le> bsize))"
        using "1.IH" [OF True nle fits under] "1.prems" step by simp
      have suc: "unat (nr + 1) = Suc (unat nr)"
        using inb "1.prems"(2) by (intro unat_word16_succ) simp
      have "take (unat nr) frs' = take (unat nr) (take (Suc (unat nr)) frs')"
        by (simp add: min_def)
      also have "\<dots> = take (unat nr) (take (Suc (unat nr)) (frs[unat nr := word_of_int free]))"
        using IH suc by simp
      also have "\<dots> = take (unat nr) frs"
        by (simp add: min_def)
      finally have pre: "take (unat nr) frs' = take (unat nr) frs" .
      show ?thesis
        using pre IH under by auto
    qed
  qed
qed




section \<open>Properties of the transfers\<close>

subsection \<open>The cache at every capacity\<close>

lemma cache_ok_wf: "cache_ok g \<Longrightarrow> cache_wf g"
  by (simp add: cache_ok_def cache_wf_def split: option.splits)

lemma word32_below_two:
  assumes "unat (w :: 32 word) < 2"
  shows "w = 0 \<or> w = 1"
proof (cases "unat w = 0")
  case True
  then show ?thesis
    by (simp add: word_unat_eq_iff)
next
  case False
  then have "unat w = 1"
    using assms by simp
  then show ?thesis
    by (simp add: word_unat_eq_iff)
qed

lemma put_block_cache_small:
  assumes c: "cache g = Some c"
    and cs: "currentSize c = of_nat (length (head c))"
    and M: "unat (block_cache_max_items g) < 2"
  shows "\<exists>l. put_block_cache g block frm buf
               = Some (0, g\<lparr>cache := Some (c\<lparr>head := l, currentSize := of_nat (length l)\<rparr>)\<rparr>)
           \<and> map_option nbuf (find (\<lambda>n. nFrm n = frm) l) = Some buf
           \<and> (\<forall>k. k \<noteq> frm \<longrightarrow> find (\<lambda>n. nFrm n = k) l = None
                  \<or> find (\<lambda>n. nFrm n = k) l = find (\<lambda>n. nFrm n = k) (head c))"
proof -
  define xs where "xs = head c"
  define n where "n = length xs"
  have hxs: "head c = xs"
    by (simp add: xs_def)
  have csn: "currentSize c = of_nat n"
    using cs by (simp add: n_def xs_def)
  have grow: "currentSize c + 1 = of_nat (Suc n)"
    by (simp add: csn)
  let ?new = "\<lparr>nBlock = block, nFrm = frm, nbuf = buf\<rparr>"
  let ?P = "\<lambda>l. put_block_cache g block frm buf
               = Some (0, g\<lparr>cache := Some (c\<lparr>head := l, currentSize := of_nat (length l)\<rparr>)\<rparr>)
           \<and> map_option nbuf (find (\<lambda>n. nFrm n = frm) l) = Some buf
           \<and> (\<forall>k. k \<noteq> frm \<longrightarrow> find (\<lambda>n. nFrm n = k) l = None
                  \<or> find (\<lambda>n. nFrm n = k) l = find (\<lambda>n. nFrm n = k) xs)"
  have keep: "put_block_cache g block frm buf
               = Some (0, g\<lparr>cache := Some (c\<lparr>head := l, currentSize := of_nat (length l)\<rparr>)\<rparr>)"
    if "put_block_cache g block frm buf = Some (0, g\<lparr>cache := Some (c\<lparr>head := l\<rparr>)\<rparr>)"
      and "length l = n" for l
    using that csn by simp
  have more: "put_block_cache g block frm buf
               = Some (0, g\<lparr>cache := Some (c\<lparr>head := l, currentSize := of_nat (length l)\<rparr>)\<rparr>)"
    if "put_block_cache g block frm buf
          = Some (0, g\<lparr>cache := Some (c\<lparr>head := l, currentSize := currentSize c + 1\<rparr>)\<rparr>)"
      and "length l = Suc n" for l
    using that grow by simp
  have "\<exists>l. ?P l"
  proof (cases "currentSize c = 0")
    case True
    have "put_block_cache g block frm buf
            = Some (0, g\<lparr>cache := Some (c\<lparr>head := [?new], currentSize := currentSize c + 1\<rparr>)\<rparr>)"
      using c True by (simp add: Let_def put_block_cache_def createNewNode_def)
    then have "put_block_cache g block frm buf
            = Some (0, g\<lparr>cache := Some (c\<lparr>head := [?new], currentSize := of_nat (length [?new])\<rparr>)\<rparr>)"
      using True by simp
    then have "?P [?new]"
      by simp
    then show ?thesis ..
  next
    case cs0: False
    then have "xs \<noteq> []"
      using csn by (auto simp add: n_def)
    then obtain h rest where Cons: "xs = h # rest"
      by (cases xs) auto
    then have hd: "head c = h # rest" and xs0: "xs ! 0 = h" and ne: "xs \<noteq> []"
      by (simp_all add: xs_def)
    show ?thesis
    proof (cases "nFrm h = frm")
      case True
      define l where "l = h\<lparr>nbuf := buf\<rparr> # rest"
      have "put_block_cache g block frm buf = Some (0, g\<lparr>cache := Some (c\<lparr>head := l\<rparr>)\<rparr>)"
        using c hd cs0 True by (simp add: Let_def put_block_cache_def l_def)
      moreover have "length l = n"
        by (simp add: n_def Cons l_def)
      ultimately have "put_block_cache g block frm buf
               = Some (0, g\<lparr>cache := Some (c\<lparr>head := l, currentSize := of_nat (length l)\<rparr>)\<rparr>)"
        by (rule keep)
      then have "?P l"
        using True by (simp add: l_def Cons)
      then show ?thesis ..
    next
      case False
      show ?thesis
      proof (cases "currentSize c = 1")
        case True
        define l where "l = ?new # xs"
        have "put_block_cache g block frm buf
                = Some (0, g\<lparr>cache := Some (c\<lparr>head := l, currentSize := currentSize c + 1\<rparr>)\<rparr>)"
          using c hd cs0 True False
          by (simp add: Let_def put_block_cache_def createNewNode_def xs_def l_def)
        then have "put_block_cache g block frm buf
               = Some (0, g\<lparr>cache := Some (c\<lparr>head := l, currentSize := of_nat (length l)\<rparr>)\<rparr>)"
          by (rule more) (simp add: l_def n_def)
        then have "?P l"
          by (simp add: l_def)
        then show ?thesis ..
      next
        case cs1: False
        have csM: "currentSize c \<noteq> block_cache_max_items g"
          using word32_below_two [OF M] cs0 cs1 by auto
        have n2: "2 \<le> n"
        proof (rule ccontr)
          assume "\<not> 2 \<le> n"
          then have "n = 0 \<or> n = 1"
            by auto
          then show False
            using cs0 cs1 csn by auto
        qed
        define l where "l = upsert (Suc n) xs block frm buf"
        obtain i pv where sc: "scan_here frm xs 0 None = (i, pv)"
          by (cases "scan_here frm xs 0 None") auto
        have "0 < length xs"
          using ne by simp
        from scan_here_post [OF sc this]
        have P: "i < n" "\<forall>j. j < i \<longrightarrow> nFrm (xs ! j) \<noteq> frm"
          "Suc i < n \<longrightarrow> nFrm (xs ! i) = frm"
          "pv = (if i = 0 then None else Some (i - 1))"
          by (auto simp add: n_def)
        have ipos: "i \<noteq> 0"
          using P(3) n2 False xs0 by (cases "i = 0") auto
        then have pv: "pv = Some (i - 1)"
          using P(4) by simp
        have unfold: "put_block_cache g block frm buf =
            (if Suc i < n \<or> nFrm (xs ! i) = frm then
               map_option (\<lambda>l. (0, g\<lparr>cache := Some (c\<lparr>head := l\<rparr>)\<rparr>))
                 (pop_after xs (i - 1) (\<lambda>popVal. popVal\<lparr>nbuf := buf\<rparr>))
             else Some (0, g\<lparr>cache := Some (c\<lparr>head := ?new # xs, currentSize := currentSize c + 1\<rparr>)\<rparr>))"
          using c hxs Cons cs0 cs1 csM False sc pv
          by (simp add: Let_def put_block_cache_def createNewNode_def n_def
              cong: if_cong option.case_cong)
        have put: "put_block_cache g block frm buf
               = Some (0, g\<lparr>cache := Some (c\<lparr>head := l, currentSize := of_nat (length l)\<rparr>)\<rparr>)"
        proof (cases "nFrm (xs ! i) = frm")
          case True
          have il: "i < length xs"
            using P(1) by (simp add: n_def)
          have up: "l = (xs ! i)\<lparr>nbuf := buf\<rparr> # take i xs @ drop (Suc i) xs"
            unfolding l_def by (rule upsert_found [OF il P(2) True])
          have "put_block_cache g block frm buf = Some (0, g\<lparr>cache := Some (c\<lparr>head := l\<rparr>)\<rparr>)"
            using True il ipos by (simp add: unfold pop_after_def unlink_after_def up)
          moreover have "length l = n"
            unfolding l_def using length_upsert_found [OF il P(2) True] by (simp add: n_def)
          ultimately show ?thesis
            by (rule keep)
        next
          case F: False
          then have i: "Suc i = n"
            using P(1,3) by (metis Suc_lessI)
          have none: "\<forall>j. j < length xs \<longrightarrow> nFrm (xs ! j) \<noteq> frm"
          proof (intro allI impI)
            fix j assume "j < length xs"
            then have "j \<le> i"
              using i by (simp add: n_def)
            then show "nFrm (xs ! j) \<noteq> frm"
              using P(2) F by (cases "j = i") auto
          qed
          have up: "l = ?new # xs"
            unfolding l_def using upsert_absent [OF ne none, of "Suc n" block buf] by (simp add: n_def)
          have "put_block_cache g block frm buf
              = Some (0, g\<lparr>cache := Some (c\<lparr>head := l, currentSize := currentSize c + 1\<rparr>)\<rparr>)"
            using F i by (simp add: unfold up)
          then show ?thesis
            by (rule more) (simp add: up n_def)
        qed
        have "?P l"
          using put find_upsert_same [of frm "Suc n" xs block buf]
            find_upsert_other [of _ frm "Suc n" xs block buf]
          by (simp add: l_def)
        then show ?thesis ..
      qed
    qed
  qed
  then show ?thesis
    by (simp add: xs_def)
qed

lemma put_block_cache_wf:
  assumes "cache_wf g"
  shows "\<exists>g'. put_block_cache g block frm buf = Some (0, g') \<and> cache_wf g'
           \<and> block_cache_max_items g' = block_cache_max_items g
           \<and> cached g' frm = Some buf
           \<and> (\<forall>k. k \<noteq> frm \<longrightarrow> cached g' k = None \<or> cached g' k = cached g k)"
proof (cases "unat (block_cache_max_items g) < 2")
  case False
  then have "cache_ok g"
    using assms by (simp add: cache_ok_def cache_wf_def split: option.splits)
  from put_block_cache_ok [OF this, of block frm buf]
  show ?thesis
    using cache_ok_wf by blast
next
  case True
  obtain c where c: "cache g = Some c" and cs: "currentSize c = of_nat (length (head c))"
    using assms by (auto simp add: cache_wf_def split: option.splits)
  from put_block_cache_small [OF c cs True, of block frm buf]
  obtain l where put: "put_block_cache g block frm buf
               = Some (0, g\<lparr>cache := Some (c\<lparr>head := l, currentSize := of_nat (length l)\<rparr>)\<rparr>)"
    and same: "map_option nbuf (find (\<lambda>n. nFrm n = frm) l) = Some buf"
    and other: "\<forall>k. k \<noteq> frm \<longrightarrow> find (\<lambda>n. nFrm n = k) l = None
                  \<or> find (\<lambda>n. nFrm n = k) l = find (\<lambda>n. nFrm n = k) (head c)"
    by blast
  define g' where "g' = g\<lparr>cache := Some (c\<lparr>head := l, currentSize := of_nat (length l)\<rparr>)\<rparr>"
  have "cache_wf g'"
    using True by (simp add: cache_wf_def g'_def)
  moreover have "cached g' frm = Some buf"
    using same by (simp add: cached_def g'_def)
  moreover have "\<forall>k. k \<noteq> frm \<longrightarrow> cached g' k = None \<or> cached g' k = cached g k"
    using other c by (auto simp add: cached_def g'_def)
  ultimately show ?thesis
    using put by (intro exI [of _ g']) (simp add: g'_def)
qed

lemma get_block_cache_wf:
  assumes "cache_wf g"
  shows "get_block_cache g block frm = Some (cached g frm, g)"
proof -
  obtain c where c: "cache g = Some c"
    using assms by (auto simp add: cache_wf_def split: option.splits)
  show ?thesis
    using get_block_cache_find [OF c] c by (simp add: cached_def)
qed

subsection \<open>Frame indices\<close>

lemma unat_ucast_16_32: "unat (ucast (fn :: 16 word) :: 32 word) = unat fn"
proof -
  have "unat fn < 2 ^ 32"
    using unsigned_less [of fn, where 'a = nat] by simp
  then show ?thesis
    by (simp add: unsigned_ucast_eq take_bit_nat_eq_self)
qed

lemma unat_ucast_16_32_less: "unat (ucast (fn :: 16 word) :: 32 word) < 2 ^ 16"
  using unsigned_less [of fn, where 'a = nat] by (simp add: unat_ucast_16_32)

lemma ucast_16_32_inj:
  assumes "(ucast (a :: 16 word) :: 32 word) = ucast (b :: 16 word)"
  shows "a = b"
proof -
  have "unat (ucast a :: 32 word) = unat (ucast b :: 32 word)"
    using assms by simp
  then show ?thesis
    by (simp add: unat_ucast_16_32 word_unat_eq_iff)
qed

subsection \<open>One exchange on a faithful transport\<close>


lemma faithful_read:
  assumes "faithful_bus env stored"
  shows "\<exists>d'. executeOpcode env d (Some f) (BLOCK_OP_RDFRME env) (ucast (fn :: 16 word))
                  = Some (d', Some (stored d (ucast fn)))
               \<and> stored d' = stored d"
proof -
  obtain reply b' d' where x: "exchange env (d, Some f, BLOCK_OP_RDFRME env, ucast fn) = (reply, b', d')"
    by (metis prod_cases3)
  have "acknowledged env reply b' \<and> b' = Some (stored d (ucast fn)) \<and> stored d' = stored d"
    using assms x unat_ucast_16_32_less [of fn]
    unfolding faithful_bus_def by (metis (mono_tags, lifting) case_prod_conv)
  then have a: "acknowledged env reply (Some (stored d (ucast fn)))"
    and b: "b' = Some (stored d (ucast fn))" and c: "stored d' = stored d"
    by blast+
  show ?thesis
    using executeOpcode_acknowledged [OF x [unfolded b] a] c by blast
qed

lemma faithful_write:
  assumes "faithful_bus env stored"
  shows "\<exists>d'. executeOpcode env d (Some f) (BLOCK_OP_WRFRME env) (ucast (fn :: 16 word))
                  = Some (d', Some f)
               \<and> stored d' = (stored d)(ucast fn := f)"
proof -
  obtain reply b' d' where x: "exchange env (d, Some f, BLOCK_OP_WRFRME env, ucast fn) = (reply, b', d')"
    by (metis prod_cases3)
  have "acknowledged env reply b' \<and> b' = Some f \<and> stored d' = (stored d)(ucast fn := f)"
    using assms x unat_ucast_16_32_less [of fn]
    unfolding faithful_bus_def by (metis (mono_tags, lifting) case_prod_conv)
  then have a: "acknowledged env reply (Some f)"
    and b: "b' = Some f" and c: "stored d' = (stored d)(ucast fn := f)"
    by blast+
  show ?thesis
    using executeOpcode_acknowledged [OF x [unfolded b] a] c by blast
qed

lemma fetch_frame_ok:
  assumes f: "faithful_bus env stored" and ok: "cache_wf (cache_g s)"
  shows "\<exists>s'. fetch_frame env s frame fn
                 = Some (s', case cached (cache_g s) fn of
                               Some c \<Rightarrow> c | None \<Rightarrow> stored (device s) (ucast fn))
               \<and> cache_wf (cache_g s')
               \<and> stored (device s') = stored (device s)
               \<and> s' = s\<lparr>device := device s', cache_g := cache_g s'\<rparr>
               \<and> (\<forall>k. agrees stored s k \<longrightarrow> agrees stored s' k)"
proof (cases "cached (cache_g s) fn")
  case (Some c)
  have "fetch_frame env s frame fn = Some (s\<lparr>cache_g := cache_g s\<rparr>, c)"
    using Some by (simp add: fetch_frame_def get_block_cache_wf [OF ok])
  then show ?thesis
    using Some ok by (intro exI [of _ "s\<lparr>cache_g := cache_g s\<rparr>"]) (simp add: agrees_def)
next
  case None
  from faithful_read [OF f, of "device s" frame fn]
  obtain d' where rd: "executeOpcode env (device s) (Some frame) (BLOCK_OP_RDFRME env) (ucast fn)
        = Some (d', Some (stored (device s) (ucast fn)))"
    and st: "stored d' = stored (device s)"
    by blast
  from put_block_cache_wf [OF ok, of 0 fn "stored (device s) (ucast fn)"]
  obtain g' where put: "put_block_cache (cache_g s) 0 fn (stored (device s) (ucast fn)) = Some (0, g')"
    and ok': "cache_wf g'"
    and same: "cached g' fn = Some (stored (device s) (ucast fn))"
    and other: "\<forall>k. k \<noteq> fn \<longrightarrow> cached g' k = None \<or> cached g' k = cached (cache_g s) k"
    by blast
  define s' where "s' = s\<lparr>device := d', cache_g := g'\<rparr>"
  have "fetch_frame env s frame fn = Some (s', stored (device s) (ucast fn))"
    using None rd put by (simp add: fetch_frame_def get_block_cache_wf [OF ok] s'_def)
  moreover have "\<forall>k. agrees stored s k \<longrightarrow> agrees stored s' k"
  proof (intro allI impI)
    fix k assume a: "agrees stored s k"
    show "agrees stored s' k"
    proof (cases "k = fn")
      case True
      then show ?thesis
        using same st by (simp add: agrees_def s'_def)
    next
      case False
      then show ?thesis
        using other a st by (auto simp add: agrees_def s'_def)
    qed
  qed
  ultimately show ?thesis
    using None ok' st by (intro exI [of _ s']) (simp add: s'_def)
qed

subsection \<open>One turn of the write loop\<close>

lemma chunk_size_bounds:
  assumes "0 < remaining"
  shows "0 < chunk_size l remaining" and "chunk_size l remaining \<le> remaining"
    and "l mod 4096 + chunk_size l remaining \<le> 4096"
  using assms by (simp_all add: chunk_size_def)

lemma fetched_agrees: "agrees stored s fn \<Longrightarrow> fetched stored s fn = stored (device s) (ucast fn)"
  by (auto simp add: agrees_def fetched_def)

lemma block_write_body_ok:
  assumes f: "faithful_bus env stored" and ok: "cache_wf (cache_g s)"
    and fi: "fi < length (files s)"
    and l: "0 \<le> l" and idx: "nat (l div 4096) < length (frames (files s ! fi))"
    and rem: "0 < remaining"
    and buf: "bufOffset + remaining \<le> int (length buf)" "0 \<le> bufOffset"
  defines "fn \<equiv> frames (files s ! fi) ! nat (l div 4096)"
    and "ds \<equiv> chunk_size l remaining"
  defines "frame2 \<equiv> frame_store (fetched stored s fn) (nat (l mod 4096))
                       (take (nat ds) (drop (nat bufOffset) buf))"
  shows "\<exists>s'. block_write_body env fi buf (s, frame, l, remaining, bufOffset)
                 = Some (s', frame2, l + ds, remaining - ds, bufOffset + ds)
               \<and> cache_wf (cache_g s')
               \<and> s' = s\<lparr>device := device s', cache_g := cache_g s'\<rparr>
               \<and> stored (device s') = (stored (device s))(ucast fn := frame2)
               \<and> cached (cache_g s') fn = Some frame2
               \<and> (\<forall>k. k \<noteq> fn \<longrightarrow> agrees stored s k \<longrightarrow> agrees stored s' k)"
proof -
  from fetch_frame_ok [OF f ok, of frame fn]
  obtain s1 where fe: "fetch_frame env s frame fn = Some (s1, fetched stored s fn)"
    and ok1: "cache_wf (cache_g s1)"
    and st1: "stored (device s1) = stored (device s)"
    and s1: "s1 = s\<lparr>device := device s1, cache_g := cache_g s1\<rparr>"
    and ag1: "\<forall>k. agrees stored s k \<longrightarrow> agrees stored s1 k"
    unfolding fetched_def by blast
  from faithful_write [OF f, of "device s1" frame2 fn]
  obtain d3 where wr: "executeOpcode env (device s1) (Some frame2) (BLOCK_OP_WRFRME env) (ucast fn)
        = Some (d3, Some frame2)"
    and st3: "stored d3 = (stored (device s1))(ucast fn := frame2)"
    by blast
  from put_block_cache_wf [OF ok1, of 0 fn frame2]
  obtain g3 where put: "put_block_cache (cache_g s1) 0 fn frame2 = Some (0, g3)"
    and ok3: "cache_wf g3"
    and same: "cached g3 fn = Some frame2"
    and other: "\<forall>k. k \<noteq> fn \<longrightarrow> cached g3 k = None \<or> cached g3 k = cached (cache_g s1) k"
    by blast
  define s' where "s' = s1\<lparr>device := d3, cache_g := g3\<rparr>"
  have dsb: "0 < ds" "ds \<le> remaining"
    using chunk_size_bounds [OF rem, of l] by (simp_all add: ds_def)
  have nbuf: "\<not> int (length buf) < bufOffset + ds"
    using buf dsb by simp
  have cond: "\<not> (l < 0 \<or> length (files s) \<le> fi)"
    using l fi by simp
  have idx': "\<not> length (frames (files s ! fi)) \<le> nat (l div 4096)"
    using idx by simp
  have "block_write_body env fi buf (s, frame, l, remaining, bufOffset)
          = Some (s', frame2, l + ds, remaining - ds, bufOffset + ds)"
    unfolding block_write_body_def
    using cond idx' fe nbuf wr put
    by (simp add: Let_def fn_def [symmetric] chunk_size_def [symmetric] ds_def [symmetric]
        frame2_def [symmetric] s'_def)
  moreover have "s' = s\<lparr>device := device s', cache_g := cache_g s'\<rparr>"
  proof -
    have "s' = s\<lparr>device := d3, cache_g := g3\<rparr>"
      unfolding s'_def by (subst s1) simp
    then show ?thesis
      by simp
  qed
  moreover have "\<forall>k. k \<noteq> fn \<longrightarrow> agrees stored s k \<longrightarrow> agrees stored s' k"
  proof (intro allI impI)
    fix k assume k: "k \<noteq> fn" and a: "agrees stored s k"
    have "agrees stored s1 k"
      using ag1 a by simp
    moreover have "(ucast k :: 32 word) \<noteq> ucast fn"
      using k ucast_16_32_inj by blast
    ultimately show "agrees stored s' k"
      using other k st3 by (auto simp add: agrees_def s'_def)
  qed
  ultimately show ?thesis
    using ok3 st3 st1 same by (intro exI [of _ s']) (simp add: s'_def)
qed

subsection \<open>The bytes that the device holds\<close>

lemma same_frame:
  fixes l x ds :: int
  assumes "l \<le> x" and "x < l + ds" and "l mod 4096 + ds \<le> 4096"
  shows "x div 4096 = l div 4096" and "x mod 4096 = l mod 4096 + (x - l)"
proof -
  define q where "q = l div 4096"
  define r where "r = l mod 4096"
  have l: "l = q * 4096 + r" and r: "0 \<le> r" "r < 4096"
    by (simp_all add: q_def r_def)
  have x: "x = q * 4096 + (r + (x - l))"
    using l by simp
  have b: "0 \<le> r + (x - l)" "r + (x - l) < 4096"
    using assms r by (simp_all add: r_def)
  show "x div 4096 = l div 4096"
    using x b by (metis q_def div_mult_self2 add.commute div_pos_pos_trivial add_0 zero_neq_numeral mult.commute)
  show "x mod 4096 = l mod 4096 + (x - l)"
    using x b by (metis r_def mod_mult_self4 mod_pos_pos_trivial add.commute mult.commute)
qed

lemma earlier_in_frame:
  fixes l x :: int
  assumes "x < l" and "x div 4096 = l div 4096"
  shows "x mod 4096 < l mod 4096"
proof -
  have "x = x div 4096 * 4096 + x mod 4096" "l = l div 4096 * 4096 + l mod 4096"
    by simp_all
  then show ?thesis
    using assms by linarith
qed

lemma frame_index_less:
  fixes x :: int
  assumes "0 \<le> x" and "x < int N * 4096"
  shows "nat (x div 4096) < N"
proof -
  have "x div 4096 < int N"
    using assms by (simp add: div_less_iff_less_mult)
  moreover have "0 \<le> x div 4096"
    using assms(1) by simp
  ultimately show ?thesis
    by linarith
qed

lemma write_step_written:
  assumes w: "written stored s frs loc0 buf l"
    and st: "stored (device s') = (stored (device s))(ucast fn := frame2)"
    and ca: "cached (cache_g s') fn = Some frame2"
    and ag: "\<forall>k. k \<noteq> fn \<longrightarrow> agrees stored s k \<longrightarrow> agrees stored s' k"
    and fn: "fn = frs ! nat (l div 4096)"
    and frame2: "frame2 = frame_store (fetched stored s fn) (nat (l mod 4096))
                            (take (nat ds) (drop (nat bufOffset) buf))"
    and loc0: "0 \<le> loc0" and l: "l = loc0 + bufOffset" and bo: "0 \<le> bufOffset"
    and ds: "0 < ds" "l mod 4096 + ds \<le> 4096" "bufOffset + ds \<le> int (length buf)"
    and N: "distinct (take N frs)" "N \<le> length frs" "l + ds \<le> int N * 4096"
  shows "written stored s' frs loc0 buf (l + ds)"
  unfolding written_def
proof (intro allI impI)
  fix x assume x: "loc0 \<le> x \<and> x < l + ds"
  define seg where "seg = take (nat ds) (drop (nat bufOffset) buf)"
  define base where "base = fetched stored s fn"
  define off where "off = nat (l mod 4096)"
  have lseg: "length seg = nat ds"
    using ds bo by (simp add: seg_def)
  have offb: "off + nat ds \<le> 4096"
    using ds by (simp add: off_def)
  have bytes2: "frame_bytes frame2
      = take off (frame_bytes base) @ seg @ drop (off + nat ds) (frame_bytes base)"
    using offb lseg
    by (simp add: frame2 frame_bytes_store seg_def [symmetric] base_def [symmetric] off_def [symmetric])
  have x0: "0 \<le> x" and l0: "0 \<le> l"
    using x loc0 l bo by simp_all
  have pxN: "nat (x div 4096) < N"
    using x0 x N(3) by (intro frame_index_less) simp_all
  have pN: "nat (l div 4096) < N"
    using l0 ds(1) N(3) by (intro frame_index_less) simp_all
  show "device_byte stored s' frs x = buf ! nat (x - loc0)
        \<and> agrees stored s' (frs ! nat (x div 4096))"
  proof (cases "x div 4096 = l div 4096")
    case True
    then have same: "frs ! nat (x div 4096) = fn"
      by (simp add: fn)
    have agr: "agrees stored s' fn"
      using st ca by (simp add: agrees_def)
    have dev: "device_byte stored s' frs x = frame_bytes frame2 ! nat (x mod 4096)"
      using same st by (simp add: device_byte_def)
    show ?thesis
    proof (cases "x < l")
      case xl: True
      then have old: "device_byte stored s frs x = buf ! nat (x - loc0)" "agrees stored s fn"
        using w x same by (auto simp add: written_def)
      have lt: "nat (x mod 4096) < off"
        using earlier_in_frame [OF xl True] by (simp add: off_def)
      have "frame_bytes frame2 ! nat (x mod 4096) = frame_bytes base ! nat (x mod 4096)"
        using lt offb by (simp add: bytes2 nth_append length_frame_bytes)
      also have "\<dots> = device_byte stored s frs x"
        using fetched_agrees [OF old(2)] same by (simp add: base_def device_byte_def)
      finally show ?thesis
        using dev old(1) agr same by simp
    next
      case False
      then have lx: "l \<le> x"
        by simp
      have m: "x mod 4096 = l mod 4096 + (x - l)"
        using same_frame(2) [OF lx _ ds(2)] x by simp
      have j: "nat (x mod 4096) = off + nat (x - l)"
        using m lx by (simp add: off_def nat_add_distrib)
      have jl: "nat (x - l) < nat ds"
        using x lx by simp
      have "frame_bytes frame2 ! nat (x mod 4096) = seg ! nat (x - l)"
        using jl lseg offb by (simp add: bytes2 j nth_append length_frame_bytes)
      also have "\<dots> = buf ! (nat bufOffset + nat (x - l))"
      proof -
        have "nat bufOffset \<le> length buf"
          using ds bo by linarith
        then show ?thesis
          using jl by (simp add: seg_def)
      qed
      also have "nat bufOffset + nat (x - l) = nat (x - loc0)"
        using l lx bo by simp
      finally show ?thesis
        using dev agr same by simp
    qed
  next
    case False
    have xl: "x < l"
    proof (rule ccontr)
      assume "\<not> x < l"
      then have "l \<le> x"
        by simp
      from same_frame(1) [OF this _ ds(2)] x False show False
        by simp
    qed
    then have old: "device_byte stored s frs x = buf ! nat (x - loc0)"
      "agrees stored s (frs ! nat (x div 4096))"
      using w x by (auto simp add: written_def)
    have "0 \<le> x div 4096" "0 \<le> l div 4096"
      using x0 l0 by simp_all
    then have "nat (x div 4096) \<noteq> nat (l div 4096)"
      using False by linarith
    moreover have "nat (x div 4096) < length (take N frs)" "nat (l div 4096) < length (take N frs)"
      using N(2) pxN pN by simp_all
    ultimately have "take N frs ! nat (x div 4096) \<noteq> take N frs ! nat (l div 4096)"
      using nth_eq_iff_index_eq [OF N(1)] by blast
    then have ne: "frs ! nat (x div 4096) \<noteq> fn"
      using pxN pN by (simp add: fn)
    then have "(ucast (frs ! nat (x div 4096)) :: 32 word) \<noteq> ucast fn"
      using ucast_16_32_inj by blast
    then have "device_byte stored s' frs x = device_byte stored s frs x"
      using st by (simp add: device_byte_def)
    then show ?thesis
      using old ag ne by simp
  qed
qed

subsection \<open>The write loop\<close>

lemma block_write_loop_ok:
  assumes f: "faithful_bus env stored"
    and N: "distinct (take N frs)" "N \<le> length frs"
    and loc0: "0 \<le> loc0"
  shows "cache_wf (cache_g s) \<Longrightarrow> fi < length (files s) \<Longrightarrow> frames (files s ! fi) = frs
         \<Longrightarrow> 0 \<le> remaining \<Longrightarrow> 0 \<le> bufOffset \<Longrightarrow> l = loc0 + bufOffset
         \<Longrightarrow> l + remaining \<le> int N * 4096 \<Longrightarrow> bufOffset + remaining \<le> int (length buf)
         \<Longrightarrow> written stored s frs loc0 buf l
         \<Longrightarrow> \<exists>s' frame'. block_write_loop env fi buf (s, frame, l, remaining, bufOffset)
                       = Some (s', frame', l + remaining, 0, bufOffset + remaining)
                 \<and> cache_wf (cache_g s')
                 \<and> s' = s\<lparr>device := device s', cache_g := cache_g s'\<rparr>
                 \<and> written stored s' frs loc0 buf (l + remaining)"
proof (induction "nat remaining" arbitrary: s frame l remaining bufOffset rule: less_induct)
  case less
  show ?case
  proof (cases "remaining = 0")
    case True
    then have "block_write_loop env fi buf (s, frame, l, remaining, bufOffset)
        = Some (s, frame, l, 0, bufOffset)"
      by (simp add: block_write_loop.simps)
    then show ?thesis
      using True less.prems by (intro exI [of _ s] exI [of _ frame]) simp
  next
    case False
    then have rem: "0 < remaining"
      using less.prems(4) by simp
    define ds where "ds = chunk_size l remaining"
    define fn where "fn = frames (files s ! fi) ! nat (l div 4096)"
    define frame2 where "frame2 = frame_store (fetched stored s fn) (nat (l mod 4096))
                       (take (nat ds) (drop (nat bufOffset) buf))"
    have dsb: "0 < ds" "ds \<le> remaining" "l mod 4096 + ds \<le> 4096"
      using chunk_size_bounds [OF rem, of l] by (simp_all add: ds_def)
    have l0: "0 \<le> l"
      using less.prems(5,6) loc0 by simp
    have idx: "nat (l div 4096) < length (frames (files s ! fi))"
    proof -
      have "nat (l div 4096) < N"
        using l0 rem less.prems(7) by (intro frame_index_less) simp_all
      then show ?thesis
        using N(2) less.prems(3) by simp
    qed
    from block_write_body_ok [OF f less.prems(1) less.prems(2) l0 idx rem less.prems(8) less.prems(5),
        of frame]
    obtain s1 where body: "block_write_body env fi buf (s, frame, l, remaining, bufOffset)
          = Some (s1, frame2, l + ds, remaining - ds, bufOffset + ds)"
      and ok1: "cache_wf (cache_g s1)"
      and s1: "s1 = s\<lparr>device := device s1, cache_g := cache_g s1\<rparr>"
      and st1: "stored (device s1) = (stored (device s))(ucast fn := frame2)"
      and ca1: "cached (cache_g s1) fn = Some frame2"
      and ag1: "\<forall>k. k \<noteq> fn \<longrightarrow> agrees stored s k \<longrightarrow> agrees stored s1 k"
      unfolding ds_def fn_def frame2_def by blast
    have files1: "files s1 = files s"
      by (subst s1) simp
    have w1: "written stored s1 frs loc0 buf (l + ds)"
    proof (rule write_step_written [OF less.prems(9) st1 ca1 ag1 _ frame2_def loc0 less.prems(6)
          less.prems(5) dsb(1) dsb(3) _ N(1) N(2)])
      show "fn = frs ! nat (l div 4096)"
        using less.prems(3) by (simp add: fn_def)
      show "bufOffset + ds \<le> int (length buf)"
        using less.prems(8) dsb(2) by simp
      show "l + ds \<le> int N * 4096"
        using less.prems(7) dsb(2) by simp
    qed
    have m: "nat (remaining - ds) < nat remaining"
      using dsb rem by simp
    have "\<exists>s' frame'. block_write_loop env fi buf (s1, frame2, l + ds, remaining - ds, bufOffset + ds)
                       = Some (s', frame', (l + ds) + (remaining - ds), 0, (bufOffset + ds) + (remaining - ds))
                 \<and> cache_wf (cache_g s')
                 \<and> s' = s1\<lparr>device := device s', cache_g := cache_g s'\<rparr>
                 \<and> written stored s' frs loc0 buf ((l + ds) + (remaining - ds))"
    proof (rule less.hyps [OF m ok1])
      show "fi < length (files s1)"
        using less.prems(2) files1 by simp
      show "frames (files s1 ! fi) = frs"
        using less.prems(3) files1 by simp
      show "0 \<le> remaining - ds"
        using dsb by simp
      show "0 \<le> bufOffset + ds"
        using less.prems(5) dsb by simp
      show "l + ds = loc0 + (bufOffset + ds)"
        using less.prems(6) by simp
      show "l + ds + (remaining - ds) \<le> int N * 4096"
        using less.prems(7) by simp
      show "bufOffset + ds + (remaining - ds) \<le> int (length buf)"
        using less.prems(8) by simp
      show "written stored s1 frs loc0 buf (l + ds)"
        by (rule w1)
    qed
    then obtain s' frame' where
      loop: "block_write_loop env fi buf (s1, frame2, l + ds, remaining - ds, bufOffset + ds)
          = Some (s', frame', l + ds + (remaining - ds), 0, bufOffset + ds + (remaining - ds))"
      and ok': "cache_wf (cache_g s')"
      and s': "s' = s1\<lparr>device := device s', cache_g := cache_g s'\<rparr>"
      and w': "written stored s' frs loc0 buf (l + ds + (remaining - ds))"
      by blast
    have "block_write_loop env fi buf (s, frame, l, remaining, bufOffset)
        = Some (s', frame', l + remaining, 0, bufOffset + remaining)"
      using rem body loop by (simp add: block_write_loop.simps [of env fi buf s])
    moreover have "s' = s\<lparr>device := device s', cache_g := cache_g s'\<rparr>"
    proof -
      have "s' = s\<lparr>device := device s', cache_g := cache_g s'\<rparr>\<lparr>device := device s', cache_g := cache_g s'\<rparr>"
        by (subst s', subst s1) simp
      then show ?thesis
        by simp
    qed
    moreover have "written stored s' frs loc0 buf (l + remaining)"
      using w' by simp
    ultimately show ?thesis
      using ok' by (intro exI [of _ s'] exI [of _ frame']) simp
  qed
qed

subsection \<open>The read loop\<close>

lemma written_preserved:
  assumes "written stored s frs loc0 buf l"
    and "stored (device s') = stored (device s)"
    and "\<forall>k. agrees stored s k \<longrightarrow> agrees stored s' k"
  shows "written stored s' frs loc0 buf l"
  using assms by (simp add: written_def device_byte_def)




subsection \<open>Successful allocation\<close>

lemma unat_word16_of_int:
  assumes "0 \<le> k" and "k < 65536"
  shows "unat (word_of_int k :: 16 word) = nat k"
proof -
  have "(word_of_int k :: 16 word) = of_nat (nat k)"
    using assms by simp
  moreover have "nat k < 2 ^ 16"
    using assms by simp
  ultimately show ?thesis
    by (simp add: unat_of_nat)
qed

lemma allocate_loop_success:
  assumes "allocate_loop bsize target frs free nr = Some (0, frs', free', nr')"
    and "length frs \<le> 65535" and "bsize \<le> 65536" and "0 \<le> free"
    and "distinct (take (unat nr) frs)"
    and "\<forall>x \<in> set (take (unat nr) frs). uint x < free"
    and "unat nr \<le> length frs"
  shows "distinct (take (unat nr') frs')
         \<and> (\<forall>x \<in> set (take (unat nr') frs'). uint x < free')
         \<and> target \<le> int (unat nr') * 4096
         \<and> unat nr' \<le> length frs' \<and> length frs' = length frs \<and> free \<le> free'"
  using assms
proof (induction bsize target frs free nr rule: allocate_loop.induct)
  case (1 bsize target frs free nr)
  show ?case
  proof (cases "target > int (unat nr) * 4096")
    case False
    then have "allocate_loop bsize target frs free nr = Some (0, frs, free, nr)"
      by (simp add: allocate_loop.simps [of bsize target frs free nr])
    then have "frs' = frs" "free' = free" "nr' = nr"
      using "1.prems"(1) by simp_all
    then show ?thesis
      using False "1.prems" by simp
  next
    case True
    have inb: "unat nr < length frs"
      using True "1.prems"(1)
      by (simp add: allocate_loop.simps [of bsize target frs free nr] split: if_splits)
    have fits: "\<not> 2 ^ 31 \<le> free + 1"
      using True inb "1.prems"(1)
      by (simp add: allocate_loop.simps [of bsize target frs free nr] split: if_splits)
    have under: "\<not> free + 1 > bsize"
      using True inb fits "1.prems"(1)
      by (simp add: allocate_loop.simps [of bsize target frs free nr] split: if_splits)
    define frs1 where "frs1 = frs[unat nr := word_of_int free]"
    have step: "allocate_loop bsize target frs1 (free + 1) (nr + 1) = Some (0, frs', free', nr')"
      using True inb fits under "1.prems"(1)
      by (simp add: allocate_loop.simps [of bsize target frs free nr] frs1_def)
    have suc: "unat (nr + 1) = Suc (unat nr)"
      using inb "1.prems"(2) by (intro unat_word16_succ) simp
    have fr: "uint (word_of_int free :: 16 word) = free"
    proof -
      have "unat (word_of_int free :: 16 word) = nat free"
        using under "1.prems"(3,4) by (intro unat_word16_of_int) simp_all
      then have "int (unat (word_of_int free :: 16 word)) = free"
        using "1.prems"(4) by simp
      then show ?thesis
        by simp
    qed
    have tk: "take (unat (nr + 1)) frs1 = take (unat nr) frs @ [word_of_int free]"
      using inb by (simp add: suc frs1_def take_Suc_conv_app_nth)
    have notin: "(word_of_int free :: 16 word) \<notin> set (take (unat nr) frs)"
    proof
      assume "(word_of_int free :: 16 word) \<in> set (take (unat nr) frs)"
      then have "uint (word_of_int free :: 16 word) < free"
        using "1.prems"(6) by blast
      then show False
        using fr by simp
    qed
    have d1: "distinct (take (unat (nr + 1)) frs1)"
      using "1.prems"(5) notin by (simp add: tk)
    have b1: "\<forall>x \<in> set (take (unat (nr + 1)) frs1). uint x < free + 1"
      using "1.prems"(6) fr by (auto simp add: tk)
    have nle: "\<not> length frs \<le> unat nr"
      using inb by simp
    have "distinct (take (unat nr') frs')
         \<and> (\<forall>x \<in> set (take (unat nr') frs'). uint x < free')
         \<and> target \<le> int (unat nr') * 4096
         \<and> unat nr' \<le> length frs' \<and> length frs' = length frs1 \<and> free + 1 \<le> free'"
    proof (rule "1.IH" [OF True nle fits under, folded frs1_def, OF step])
      show "length frs1 \<le> 65535"
        using "1.prems"(2) by (simp add: frs1_def)
      show "bsize \<le> 65536"
        by (rule "1.prems"(3))
      show "0 \<le> free + 1"
        using "1.prems"(4) by simp
      show "distinct (take (unat (nr + 1)) frs1)"
        by (rule d1)
      show "\<forall>x \<in> set (take (unat (nr + 1)) frs1). uint x < free + 1"
        by (rule b1)
      show "unat (nr + 1) \<le> length frs1"
        using inb by (simp add: suc frs1_def)
    qed
    then show ?thesis
      by (simp add: frs1_def)
  qed
qed

lemma allocateNewFrames_success:
  assumes alloc: "allocateNewFrames env s fd count = Some (0, s1)"
    and fp: "file_p (handles s ! fd) = Some fi"
    and fok: "file_ok env s fi"
  shows "\<exists>frs N. s1 = s\<lparr>files := (files s)[fi := (files s ! fi)\<lparr>frames := frs, nrFrames := int N\<rparr>],
                        freeFrameNr := freeFrameNr s1\<rparr>
           \<and> distinct (take N frs) \<and> N \<le> length frs
           \<and> loc (handles s ! fd) + count \<le> int N * 4096
           \<and> file_ok env s1 fi"
proof -
  define f where "f = files s ! fi"
  define h where "h = handles s ! fd"
  have fd: "fd < length (handles s)"
    using alloc by (simp add: allocateNewFrames_def split: if_splits)
  have fi: "fi < length (files s)"
    using fok by (simp add: file_ok_def)
  obtain r' frs free nr' where lp:
    "allocate_loop (BLOCK_BLOCK_SIZE env) (loc h + count) (frames f) (freeFrameNr s)
        (word_of_int (nrFrames f)) = Some (r', frs, free, nr')"
    using alloc fd fp fi
    by (auto simp add: allocateNewFrames_def f_def h_def split: if_splits option.splits)
  have r': "r' \<noteq> - 1"
    and s1: "s1 = s\<lparr>files := (files s)[fi := f\<lparr>frames := frs, nrFrames := int (unat nr')\<rparr>],
                     freeFrameNr := free\<rparr>"
    using alloc fd fp fi lp
    by (auto simp add: allocateNewFrames_def f_def h_def split: if_splits)
  have un: "unat (word_of_int (nrFrames f) :: 16 word) = nat (nrFrames f)"
    using fok by (intro unat_word16_of_int) (simp_all add: file_ok_def f_def)
  have len: "length (frames f) \<le> 65535"
    using fok by (simp add: file_ok_def f_def)
  have r0: "r' = 0"
    using allocate_loop_post [OF lp len] r' by auto
  have "distinct (take (unat nr') frs)
         \<and> (\<forall>x \<in> set (take (unat nr') frs). uint x < free)
         \<and> loc h + count \<le> int (unat nr') * 4096
         \<and> unat nr' \<le> length frs \<and> length frs = length (frames f)
         \<and> freeFrameNr s \<le> free"
  proof (rule allocate_loop_success [OF lp [unfolded r0] len])
    show "BLOCK_BLOCK_SIZE env \<le> 65536" "0 \<le> freeFrameNr s"
      using fok by (simp_all add: file_ok_def)
    show "distinct (take (unat (word_of_int (nrFrames f) :: 16 word)) (frames f))"
      using fok by (simp add: un [unfolded f_def] file_ok_def f_def)
    show "\<forall>x \<in> set (take (unat (word_of_int (nrFrames f) :: 16 word)) (frames f)).
            uint x < freeFrameNr s"
      using fok by (simp add: un [unfolded f_def] file_ok_def f_def)
    have "nat (nrFrames f) \<le> 1024"
      using fok unfolding file_ok_def f_def by linarith
    then show "unat (word_of_int (nrFrames f) :: 16 word) \<le> length (frames f)"
      using fok by (simp add: un file_ok_def f_def [symmetric])
  qed
  moreover from this have "file_ok env s1 fi"
  proof -
    assume a: "distinct (take (unat nr') frs)
         \<and> (\<forall>x \<in> set (take (unat nr') frs). uint x < free)
         \<and> loc h + count \<le> int (unat nr') * 4096
         \<and> unat nr' \<le> length frs \<and> length frs = length (frames f)
         \<and> freeFrameNr s \<le> free"
    have "unat nr' \<le> 1024"
      using a fok by (simp add: file_ok_def f_def)
    then have "uint nr' \<le> 1024"
      unfolding uint_nat by linarith
    then show ?thesis
      using a fok fi by (simp add: file_ok_def f_def s1)
  qed
  ultimately show ?thesis
    by (intro exI [of _ frs] exI [of _ "unat nr'"]) (simp add: s1 f_def h_def)
qed

lemma allocateNewFrames_enough:
  assumes fd: "fd < length (handles s)"
    and fp: "file_p (handles s ! fd) = Some fi"
    and fok: "file_ok env s fi"
    and lo: "0 \<le> loc (handles s ! fd) + count" and hi: "loc (handles s ! fd) + count < 2 ^ 31"
    and fit: "loc (handles s ! fd) + count \<le> nrFrames (files s ! fi) * 4096"
  shows "allocateNewFrames env s fd count = Some (0, s)"
proof -
  define f where "f = files s ! fi"
  have fi: "fi < length (files s)"
    using fok by (simp add: file_ok_def)
  have un: "unat (word_of_int (nrFrames f) :: 16 word) = nat (nrFrames f)"
    using fok by (intro unat_word16_of_int) (simp_all add: file_ok_def f_def)
  have n0: "0 \<le> nrFrames f"
    using fok by (simp add: file_ok_def f_def)
  have lp: "allocate_loop (BLOCK_BLOCK_SIZE env) (loc (handles s ! fd) + count) (frames f)
              (freeFrameNr s) (word_of_int (nrFrames f)) =
            Some (0, frames f, freeFrameNr s, word_of_int (nrFrames f))"
    using fit n0
    by (simp add: allocate_loop.simps [of _ _ _ _ "word_of_int (nrFrames f)"] un f_def [symmetric])
  have ui: "uint (word_of_int (nrFrames f) :: 16 word) = nrFrames f"
    unfolding uint_nat un using n0 by simp
  have same: "s\<lparr>files := (files s)[fi := f\<lparr>frames := frames f, nrFrames := nrFrames f\<rparr>],
                 freeFrameNr := freeFrameNr s\<rparr> = s"
    by (simp add: f_def)
  show ?thesis
    using fd fp fi lo hi lp same
    by (simp add: allocateNewFrames_def f_def [symmetric] ui)
qed

subsection \<open>Write, seek and read\<close>



lemma block_write_ok:
  assumes f: "faithful_bus env stored"
    and ok: "cache_wf (cache_g s)"
    and fd: "0 \<le> fd" "nat fd < length (handles s)"
    and opn: "status (handles s ! nat fd) \<noteq> CLOSED"
    and fp: "file_p (handles s ! nat fd) = Some fi"
    and fok: "file_ok env s fi"
    and cur: "0 \<le> loc (handles s ! nat fd)"
    and cnt: "0 \<le> count" "count \<le> int (length buf)"
    and s0: "0 \<le> size_f (files s ! fi)"
    and sz: "size_f (files s ! fi) + count < 2 ^ 31"
    and alloc: "allocateNewFrames env s (nat fd) count = Some (0, s1)"
  shows "\<exists>s2 frs N.
           block_write env s fd buf count frame0 = Some (count, s2)
           \<and> files s2 = (files s)[fi := (files s ! fi)\<lparr>frames := frs, nrFrames := int N,
                  size_f := size_f (files s ! fi) + count\<rparr>]
           \<and> handles s2 = (handles s)[nat fd := (handles s ! nat fd)
                  \<lparr>loc := loc (handles s ! nat fd) + count\<rparr>]
           \<and> isOn s2 = isOn s \<and> nbFiles s2 = nbFiles s \<and> nbHandles s2 = nbHandles s
           \<and> frames (files s1 ! fi) = frs \<and> nrFrames (files s1 ! fi) = int N
           \<and> distinct (take N frs) \<and> N \<le> length frs
           \<and> loc (handles s ! nat fd) + count \<le> int N * 4096
           \<and> cache_wf (cache_g s2) \<and> file_ok env s2 fi
           \<and> written stored s2 frs (loc (handles s ! nat fd)) buf (loc (handles s ! nat fd) + count)"
proof -
  define l0 where "l0 = loc (handles s ! nat fd)"
  define sz0 where "sz0 = size_f (files s ! fi)"
  have fi: "fi < length (files s)"
    using fok by (simp add: file_ok_def)
  from allocateNewFrames_success [OF alloc fp fok]
  obtain frs N where s1: "s1 = s\<lparr>files := (files s)[fi := (files s ! fi)\<lparr>frames := frs, nrFrames := int N\<rparr>],
                        freeFrameNr := freeFrameNr s1\<rparr>"
    and dist: "distinct (take N frs)" and N: "N \<le> length frs"
    and room: "l0 + count \<le> int N * 4096"
    and fok1: "file_ok env s1 fi"
    unfolding l0_def by blast
  have f1: "files s1 ! fi = (files s ! fi)\<lparr>frames := frs, nrFrames := int N\<rparr>"
    and fs1: "files s1 = (files s)[fi := (files s ! fi)\<lparr>frames := frs, nrFrames := int N\<rparr>]"
    and len1: "length (files s1) = length (files s)"
    and h1: "handles s1 = handles s" and c1: "cache_g s1 = cache_g s" and on1: "isOn s1 = isOn s"
    using fi by (subst s1, simp)+
  have nb1: "nbFiles s1 = nbFiles s" "nbHandles s1 = nbHandles s"
    by (subst s1, simp)+
  have frs1: "frames (files s1 ! fi) = frs" and sz1: "size_f (files s1 ! fi) = sz0"
    and nr1: "nrFrames (files s1 ! fi) = int N"
    by (simp_all add: f1 sz0_def)
  have w0: "written stored s1 frs l0 buf l0"
    by (simp add: written_def) arith
  have "\<exists>s' frame'. block_write_loop env fi buf (s1, frame0, l0, count, 0)
                       = Some (s', frame', l0 + count, 0, 0 + count)
                 \<and> cache_wf (cache_g s')
                 \<and> s' = s1\<lparr>device := device s', cache_g := cache_g s'\<rparr>
                 \<and> written stored s' frs l0 buf (l0 + count)"
    by (rule block_write_loop_ok [OF f dist N cur [folded l0_def]])
      (use ok c1 fi len1 frs1 cnt room w0 in simp_all)
  then obtain sw frame' where
    wl: "block_write_loop env fi buf (s1, frame0, l0, count, 0) = Some (sw, frame', l0 + count, 0, count)"
    and okw: "cache_wf (cache_g sw)"
    and sw: "sw = s1\<lparr>device := device sw, cache_g := cache_g sw\<rparr>"
    and ww: "written stored sw frs l0 buf (l0 + count)"
    by auto
  have fw: "files sw = files s1" and hw: "handles sw = handles s1" and onw: "isOn sw = isOn s1"
    and frw: "freeFrameNr sw = freeFrameNr s1"
    by (subst sw, simp)+
  have nbw: "nbFiles sw = nbFiles s1" "nbHandles sw = nbHandles s1"
    by (subst sw, simp)+
  define s2 where "s2 = sw\<lparr>handles := (handles sw)[nat fd := (handles sw ! nat fd)\<lparr>loc := l0 + count\<rparr>],
        files := (files sw)[fi := (files sw ! fi)\<lparr>size_f := size_f (files sw ! fi) + count\<rparr>]\<rparr>"
  have nov: "\<not> (length (files sw) \<le> fi \<or> size_f (files sw ! fi) + count < - (2 ^ 31)
        \<or> 2 ^ 31 \<le> size_f (files sw ! fi) + count)"
    using fi len1 fw sz1 sz s0 cnt by (simp add: sz0_def)
  have wr: "block_write env s fd buf count frame0 = Some (count, s2)"
    unfolding block_write_def
    using fd opn fp alloc wl nov cnt(1) by (simp add: l0_def [symmetric] s2_def)
  have h2: "handles s2 = (handles s)[nat fd := (handles s ! nat fd)\<lparr>loc := l0 + count\<rparr>]"
    and on2: "isOn s2 = isOn s" and c2: "cache_g s2 = cache_g sw" and d2: "device s2 = device sw"
    and fr2: "freeFrameNr s2 = freeFrameNr s1"
    by (simp_all add: s2_def hw h1 onw on1 frw)
  have f2: "files s2 = (files s)[fi := (files s ! fi)\<lparr>frames := frs, nrFrames := int N,
              size_f := sz0 + count\<rparr>]"
    using fi by (simp add: s2_def fw fs1 sz0_def)
  have fok2: "file_ok env s2 fi"
    using fok1 fi by (simp add: file_ok_def f2 fr2 f1 len1)
  have w2: "written stored s2 frs l0 buf (l0 + count)"
    by (rule written_preserved [OF ww]) (simp_all add: d2 agrees_def c2)
  have nb2: "nbFiles s2 = nbFiles s" "nbHandles s2 = nbHandles s"
    by (simp_all add: s2_def nbw nb1)
  show ?thesis
    using wr f2 h2 on2 nb2 frs1 nr1 dist N room okw c2 fok2 w2
    unfolding l0_def sz0_def
    by (intro exI [of _ s2] exI [of _ frs] exI [of _ N]) simp
qed

lemma ideal_bus_faithful: "faithful_bus ideal_env (\<lambda>d. d)"
proof -
  have "unpack (pack 4 fm cs 0) = (4, fm, cs, 0)" "unpack (pack 3 fm cs 0) = (3, fm, cs, 0)"
    if "unat fm < 2 ^ 16" for fm cs :: "32 word"
    using that by (simp_all add: unpack_pack)
  then show ?thesis
    by (simp add: faithful_bus_def exchange_def acknowledged_def ideal_env_def ideal_bus_def
        request_checksum_def)
qed







text \<open>
  Claim C4 fails for \<^verbatim>\<open>block_write\<close>: a write that lands in frames the file already has
  allocates nothing and still adds \<open>count\<close> to the size. When the size with \<open>count\<close> added
  is beyond the allocated frames (as for any write of at least one byte into a file that
  fills its frames), the write succeeds and leaves \<open>nrFrames * 4096 < size\<close>.
\<close>

theorem overwrite_breaks_size_invariant:
  assumes f: "faithful_bus env stored"
    and ok: "cache_wf (cache_g s)"
    and fd: "0 \<le> fd" "nat fd < length (handles s)"
    and opn: "status (handles s ! nat fd) \<noteq> CLOSED"
    and fp: "file_p (handles s ! nat fd) = Some fi"
    and fok: "file_ok env s fi"
    and cur: "0 \<le> loc (handles s ! nat fd)"
    and cnt: "0 \<le> count" "count \<le> int (length buf)"
    and s0: "0 \<le> size_f (files s ! fi)"
    and fit: "loc (handles s ! nat fd) + count \<le> nrFrames (files s ! fi) * 4096"
    and over: "nrFrames (files s ! fi) * 4096 < size_f (files s ! fi) + count"
    and sz: "size_f (files s ! fi) + count < 2 ^ 31"
  shows "\<exists>s2. block_write env s fd buf count frame0 = Some (count, s2)
           \<and> nrFrames (files s2 ! fi) = nrFrames (files s ! fi)
           \<and> size_f (files s2 ! fi) = size_f (files s ! fi) + count
           \<and> nrFrames (files s2 ! fi) * 4096 < size_f (files s2 ! fi)"
proof -
  have fi: "fi < length (files s)"
    using fok by (simp add: file_ok_def)
  have hi: "loc (handles s ! nat fd) + count < 2 ^ 31"
    using fit over sz by simp
  have lo: "0 \<le> loc (handles s ! nat fd) + count"
    using cur cnt by simp
  have alloc: "allocateNewFrames env s (nat fd) count = Some (0, s)"
    by (rule allocateNewFrames_enough [OF fd(2) fp fok lo hi fit])
  from block_write_ok [OF f ok fd opn fp fok cur cnt s0 sz alloc, of frame0]
  obtain s2 frs N where wr: "block_write env s fd buf count frame0 = Some (count, s2)"
    and fs2: "files s2 = (files s)[fi := (files s ! fi)\<lparr>frames := frs, nrFrames := int N,
                  size_f := size_f (files s ! fi) + count\<rparr>]"
    and nr: "nrFrames (files s ! fi) = int N"
    by blast
  have "nrFrames (files s2 ! fi) = nrFrames (files s ! fi)"
    "size_f (files s2 ! fi) = size_f (files s ! fi) + count"
    using fi by (simp_all add: fs2 nr)
  then show ?thesis
    using wr over by simp
qed

theorem overwrite_breaks_size_invariant_witness:
  "\<exists>s1 s2.
     block_seek file_full 0 0 = Some (0, s1)
     \<and> size_f (files s1 ! 0) \<le> nrFrames (files s1 ! 0) * 4096
     \<and> block_write ideal_env s1 0 [9] 1 zero_frame = Some (1, s2)
     \<and> nrFrames (files s2 ! 0) = 4 \<and> size_f (files s2 ! 0) = 16385
     \<and> nrFrames (files s2 ! 0) * 4096 < size_f (files s2 ! 0)"
proof -
  define s1 where "s1 = file_full\<lparr>handles :=
      [\<lparr>file_p = Some 0, loc = 0, status = OPEN\<rparr>, zero_handle, zero_handle, zero_handle]\<rparr>"
  have fa: "frames file_a = replicate 1024 0" "nrFrames file_a = 0" "size_f file_a = 0"
    by (simp_all add: file_a_def zero_file_def)
  have sk: "block_seek file_full 0 0 = Some (0, s1)"
    by (simp add: block_seek_def file_full_def s1_def)
  have fl: "files s1 ! 0 = file_a\<lparr>size_f := 16384, frames := [4, 5, 6, 7] @ replicate 1020 0,
              nrFrames := 4\<rparr>"
    and h: "handles s1 ! 0 = \<lparr>file_p = Some 0, loc = 0, status = 1\<rparr>"
      "length (handles s1) = 4" "length (files s1) = 4" "freeFrameNr s1 = 8"
    by (simp_all add: s1_def file_full_def)
  have fok: "file_ok ideal_env s1 0"
    by (simp add: file_ok_def fl h ideal_env_def)
  have ok: "cache_wf (cache_g s1)"
    by (simp add: cache_wf_def s1_def file_full_def)
  have inv: "size_f (files s1 ! 0) \<le> nrFrames (files s1 ! 0) * 4096"
    by (simp add: fl)
  have "\<exists>s2. block_write ideal_env s1 0 [9] 1 zero_frame = Some (1, s2)
          \<and> nrFrames (files s2 ! 0) = 4 \<and> size_f (files s2 ! 0) = 16385
          \<and> nrFrames (files s2 ! 0) * 4096 < size_f (files s2 ! 0)"
    using overwrite_breaks_size_invariant [where env = ideal_env and stored = "\<lambda>d. d" and s = s1
        and fd = 0 and fi = 0 and count = 1 and buf = "[9]" and ?frame0.0 = zero_frame,
        OF ideal_bus_faithful ok _ _ _ _ fok]
    by (simp add: fl h)
  then show ?thesis
    using sk inv by blast
qed

section \<open>Paths longer than the name of a file\<close>

text \<open>
  Claim C10 fails for a path that is longer than \<^verbatim>\<open>name\<close>. After power-on,
  \<^verbatim>\<open>block_open\<close> of the path of 128 bytes \<open>a\<close> creates the file 0, whose name fills
  \<^verbatim>\<open>name\<close>, and \<^verbatim>\<open>block_write\<close> of 98 bytes gives it the size 98. The second path is 128
  bytes \<open>a\<close> and one \<open>b\<close>: no stored name matches it. \<^verbatim>\<open>memcmp\<close> compares 129 bytes, the
  name and the low byte of \<^verbatim>\<open>size\<close>, which is 98, the character \<open>b\<close>; \<^verbatim>\<open>block_open\<close>
  takes the file 0 for the one asked for and opens the handle 1 on it. No file is
  created.
\<close>

theorem block_open_compares_past_name:
  "\<exists>s1 s2 s3.
     block_open powered_on (replicate 128 97) = Some (0, s1)
     \<and> block_write ideal_env s1 0 (replicate 98 120) 98 zero_frame = Some (98, s2)
     \<and> nbFiles s2 = 1
     \<and> \<not> name_matches (replicate 128 97 @ [98]) (files s2 ! 0)
     \<and> block_open s2 (replicate 128 97 @ [98]) = Some (1, s3)
     \<and> nbFiles s3 = 1
     \<and> handles s3 ! 1 = \<lparr>file_p = Some 0, loc = 0, status = OPEN\<rparr>
     \<and> size_f (files s3 ! 0) = 98"
proof -
  define f1 where "f1 = \<lparr>name = replicate 128 97, size_f = 0, frames = replicate 1024 0, nrFrames = 0\<rparr>"
  define s1 where "s1 = powered_on
      \<lparr>files := [f1, zero_file, zero_file, zero_file], nbFiles := 1,
       handles := [\<lparr>file_p = Some 0, loc = 0, status = OPEN\<rparr>, zero_handle, zero_handle, zero_handle],
       nbHandles := 1\<rparr>"
  define sa where "sa = s1\<lparr>files := [f1\<lparr>frames := (replicate 1024 0)[0 := 4], nrFrames := 1\<rparr>,
      zero_file, zero_file, zero_file], freeFrameNr := 5\<rparr>"
  have n128: "strlen (replicate 128 97) = 128"
    by (simp add: strlen_no_zero)
  have open1: "block_open powered_on (replicate 128 97) = Some (0, s1)"
    by (simp add: block_open_def powered_on_def open_scan.simps [of _ 0] createNewFile_def
        copy_name_def n128 zero_file_def openFile_def zero_handle_def s1_def f1_def)
  have "allocate_loop 65536 98 (replicate 1024 0) 4 0 = Some (0, (replicate 1024 0)[0 := 4], 5, 1)"
    by (simp add: allocate_loop.simps [of 65536 98 "replicate 1024 0" 4 0]
        allocate_loop.simps [of 65536 98 "(replicate 1024 0)[0 := 4]" 5 1])
  then have alloc: "allocateNewFrames ideal_env s1 (nat 0) 98 = Some (0, sa)"
    by (simp add: allocateNewFrames_def s1_def sa_def f1_def powered_on_def ideal_env_def)
  have s1f: "files s1 = [f1, zero_file, zero_file, zero_file]" "nbFiles s1 = 1" "nbHandles s1 = 1"
    "handles s1 = [\<lparr>file_p = Some 0, loc = 0, status = OPEN\<rparr>, zero_handle, zero_handle, zero_handle]"
    "isOn s1 = 1" "freeFrameNr s1 = 4"
    by (simp_all add: s1_def powered_on_def)
  have fok: "file_ok ideal_env s1 0"
    by (simp add: file_ok_def s1f f1_def ideal_env_def)
  have ok: "cache_wf (cache_g s1)"
    by (simp add: cache_wf_def s1_def powered_on_def)
  have "\<exists>s2 frs N.
           block_write ideal_env s1 0 (replicate 98 120) 98 zero_frame = Some (98, s2)
           \<and> files s2 = (files s1)[0 := (files s1 ! 0)\<lparr>frames := frs, nrFrames := int N,
                  size_f := size_f (files s1 ! 0) + 98\<rparr>]
           \<and> handles s2 = (handles s1)[nat 0 := (handles s1 ! nat 0)
                  \<lparr>loc := loc (handles s1 ! nat 0) + 98\<rparr>]
           \<and> isOn s2 = isOn s1 \<and> nbFiles s2 = nbFiles s1 \<and> nbHandles s2 = nbHandles s1
           \<and> frames (files sa ! 0) = frs \<and> nrFrames (files sa ! 0) = int N"
    using block_write_ok [OF ideal_bus_faithful ok _ _ _ _ fok _ _ _ _ _ alloc,
        of "replicate 98 120" zero_frame]
    by (simp add: s1f f1_def) blast
  then obtain s2 where wr: "block_write ideal_env s1 0 (replicate 98 120) 98 zero_frame = Some (98, s2)"
    and f2: "files s2 = [f1\<lparr>frames := (replicate 1024 0)[0 := 4], nrFrames := 1, size_f := 98\<rparr>,
        zero_file, zero_file, zero_file]"
    and h2: "handles s2 = [\<lparr>file_p = Some 0, loc = 98, status = OPEN\<rparr>, zero_handle, zero_handle, zero_handle]"
    and c2: "isOn s2 = 1" "nbFiles s2 = 1" "nbHandles s2 = 1"
    by (auto simp add: s1f sa_def f1_def)
  define fl where "fl = f1\<lparr>frames := (replicate 1024 0)[0 := 4], nrFrames := 1, size_f := 98\<rparr>"
  define s3 where "s3 = s2\<lparr>handles := [\<lparr>file_p = Some 0, loc = 98, status = OPEN\<rparr>,
      \<lparr>file_p = Some 0, loc = 0, status = OPEN\<rparr>, zero_handle, zero_handle], nbHandles := 2\<rparr>"
  have n129: "strlen (replicate 128 97 @ [98]) = 129"
    by (simp add: strlen_no_zero)
  have wf: "\<forall>f \<in> set [fl, zero_file, zero_file, zero_file].
      length (name f) = 128 \<and> length (frames f) = 1024"
    by (simp add: fl_def f1_def zero_file_def)
  have len: "length (files_image [fl, zero_file, zero_file, zero_file]) = 8736"
    using length_files_image [OF wf] by simp
  have im: "take 129 (files_image [fl, zero_file, zero_file, zero_file]) = replicate 128 97 @ [98]"
    by (simp add: files_image_def file_image_def fl_def f1_def le32_def)
  have cmp: "memcmp_name [fl, zero_file, zero_file, zero_file] 0 (replicate 128 97 @ [98]) 129 = Some True"
    by (simp add: memcmp_name_def len im Let_def) (simp add: fl_def f1_def)
  have sc: "open_scan [fl, zero_file, zero_file, zero_file] 1 (replicate 128 97 @ [98]) 0 = Some (True, 0)"
    by (simp add: open_scan.simps [of _ _ _ 0] n129 cmp)
  have open2: "block_open s2 (replicate 128 97 @ [98]) = Some (1, s3)"
    by (simp add: block_open_def c2 f2 h2 sc [unfolded fl_def] openFile_def zero_handle_def s3_def)
  have nm: "\<not> name_matches (replicate 128 97 @ [98]) (files s2 ! 0)"
    by (simp add: name_matches_def n129 f2 f1_def)
  have r3: "nbFiles s3 = 1" "handles s3 ! 1 = \<lparr>file_p = Some 0, loc = 0, status = OPEN\<rparr>"
    "size_f (files s3 ! 0) = 98"
    by (simp_all add: s3_def c2 f2)
  show ?thesis
    using open1 wr c2(2) nm open2 r3 by blast
qed

end
